theory Spec2Isabelle
  imports Main "HOL-Library.Sublist"
begin

section \<open>JSON values and \<open>JSON.stringify\<close>\<close>

text \<open>
  The payloads handed to \<open>send\<close> and the values produced by \<open>JSON.parse\<close> are plain
  JSON data. An object is an association list in property order. Numbers are restricted
  to integers that a JavaScript number holds exactly and that are below \<open>10^21\<close> in
  magnitude, which \<open>JSON.stringify\<close> writes with all their digits; the wire protocol of
  the game carries no others.
\<close>

datatype json =
    JNull
  | JBool bool
  | JNum int
  | JStr string
  | JArr "json list"
  | JObj "(string \<times> json) list"

definition hex_digit :: "nat \<Rightarrow> char" where
  "hex_digit n = ''0123456789abcdef'' ! (n mod 16)"

text \<open>
  String quoting of \<open>JSON.stringify\<close>: the double quote and the backslash are escaped,
  control characters below U+0020 use the short escapes where one exists and
  \<open>\u00XX\<close> otherwise, every other character is copied.
\<close>

definition quote_char :: "char \<Rightarrow> string" where
  "quote_char c =
     (if c = CHR 0x22 then [CHR 0x5C, CHR 0x22]
      else if c = CHR 0x5C then [CHR 0x5C, CHR 0x5C]
      else if c = CHR 0x08 then [CHR 0x5C, CHR ''b'']
      else if c = CHR 0x0C then [CHR 0x5C, CHR ''f'']
      else if c = CHR 0x0A then [CHR 0x5C, CHR ''n'']
      else if c = CHR 0x0D then [CHR 0x5C, CHR ''r'']
      else if c = CHR 0x09 then [CHR 0x5C, CHR ''t'']
      else if (of_char c :: nat) < 32
        then [CHR 0x5C, CHR ''u'', CHR ''0'', CHR ''0'',
              hex_digit ((of_char c :: nat) div 16), hex_digit (of_char c)]
      else [c])"

definition quote :: "string \<Rightarrow> string" where
  "quote s = [CHR 0x22] @ concat (map quote_char s) @ [CHR 0x22]"

fun digits :: "nat \<Rightarrow> string" where
  "digits n =
     (if n < 10 then [hex_digit n] else digits (n div 10) @ [hex_digit (n mod 10)])"

definition show_int :: "int \<Rightarrow> string" where
  "show_int i = (if i < 0 then CHR ''-'' # digits (nat (- i)) else digits (nat i))"

fun JSON_stringify :: "json \<Rightarrow> string"
  and stringify_elements :: "json list \<Rightarrow> string"
  and stringify_members :: "(string \<times> json) list \<Rightarrow> string"
where
  "JSON_stringify JNull = ''null''"
| "JSON_stringify (JBool b) = (if b then ''true'' else ''false'')"
| "JSON_stringify (JNum n) = show_int n"
| "JSON_stringify (JStr s) = quote s"
| "JSON_stringify (JArr xs) = ''['' @ stringify_elements xs @ '']''"
| "JSON_stringify (JObj kvs) = ''{'' @ stringify_members kvs @ ''}''"
| "stringify_elements [] = []"
| "stringify_elements [x] = JSON_stringify x"
| "stringify_elements (x # y # xs) = JSON_stringify x @ '','' @ stringify_elements (y # xs)"
| "stringify_members [] = []"
| "stringify_members [(k, v)] = quote k @ '':'' @ JSON_stringify v"
| "stringify_members ((k, v) # kv # kvs) =
     quote k @ '':'' @ JSON_stringify v @ '','' @ stringify_members (kv # kvs)"

section \<open>Exceptions and control flow\<close>

text \<open>
  A JavaScript call either returns or throws. Mutations made before the throw persist,
  so a thrown result carries the state reached at the throw.
\<close>

datatype error = InvalidStateError | SyntaxError | TypeError | Uncaught

datatype 'w result = Normal 'w | Thrown error 'w

fun state_of :: "'w result \<Rightarrow> 'w" where
  "state_of (Normal w) = w"
| "state_of (Thrown e w) = w"

fun returns :: "'w result \<Rightarrow> bool" where
  "returns (Normal w) = True"
| "returns (Thrown e w) = False"

text \<open>\<open>Array.prototype.forEach\<close>: the callback runs on every element in index order;
  a throw leaves the loop.\<close>

fun forEach :: "'a list \<Rightarrow> ('a \<Rightarrow> 'w \<Rightarrow> 'w result) \<Rightarrow> 'w \<Rightarrow> 'w result" where
  "forEach [] f w = Normal w"
| "forEach (x # xs) f w =
     (case f x w of Normal w' \<Rightarrow> forEach xs f w' | Thrown e w' \<Rightarrow> Thrown e w')"

section \<open>The browser's WebSocket objects\<close>

text \<open>
  \<open>readyState\<close> is 0 (CONNECTING), 1 (OPEN), 2 (CLOSING) or 3 (CLOSED).
  \<open>installed\<close> records that \<open>onopen\<close>, \<open>onmessage\<close> and \<open>onclose\<close> have been assigned
  by \<open>setupSocket\<close>. \<open>transmitted\<close> lists the frames the socket has put on the network,
  oldest first.
\<close>

record WebSocket =
  readyState :: nat
  installed :: bool
  transmitted :: "string list"

definition new_WebSocket :: WebSocket where
  "new_WebSocket = \<lparr>readyState = 0, installed = False, transmitted = []\<rparr>"

text \<open>
  \<open>WebSocket.send\<close>: throws \<open>InvalidStateError\<close> while CONNECTING, transmits while
  OPEN, and discards the data silently while CLOSING or CLOSED.
\<close>

definition socket_send :: "string \<Rightarrow> WebSocket \<Rightarrow> error + WebSocket" where
  "socket_send data_str s =
     (if readyState s = 0 then Inl InvalidStateError
      else if readyState s = 1 then Inr (s\<lparr>transmitted := transmitted s @ [data_str]\<rparr>)
      else Inr s)"

text \<open>\<open>WebSocket.close\<close>: a socket that is CONNECTING or OPEN becomes CLOSING; the close
  event follows later. On a CLOSING or CLOSED socket nothing happens.\<close>

definition socket_close :: "WebSocket \<Rightarrow> WebSocket" where
  "socket_close s =
     (if readyState s = 2 \<or> readyState s = 3 then s else s\<lparr>readyState := 2\<rparr>)"

section \<open>The client of \<open>src/lib/gameServer.ts\<close>\<close>

text \<open>
  Code supplied by the page (message handlers, the close callback, event handlers of the
  user interface) is a closure: it reads and updates the page's own variables \<open>'env\<close> and
  calls methods of the \<open>GameServer\<close> instance, in order. The methods return nothing, so a
  run of a closure is the new environment, the calls it has made, and how it ended: it
  returns, or it throws after these calls (\<open>Uncaught\<close> stands for whatever it throws).
\<close>

datatype outcome = Returns | Throws

datatype 'env cmd =
    Send json
  | CreateRoom string
  | JoinRoom string string
  | Ready
  | ActivePlayerChoose string string
  | PlayersChoose string
  | Vote string
  | AddMsgHandler nat "json \<Rightarrow> 'env \<Rightarrow> 'env \<times> 'env cmd list \<times> outcome"
  | Close
  | OnClose "'env \<Rightarrow> 'env \<times> 'env cmd list \<times> outcome"

type_synonym 'env closure = "'env \<Rightarrow> 'env \<times> 'env cmd list \<times> outcome"

text \<open>A message handler is a function value; \<open>nat\<close> is its identity, so that the same
  function registered twice is told apart from two functions.\<close>

type_synonym 'env handler = "nat \<times> (json \<Rightarrow> 'env closure)"

text \<open>
  The state: the WebSocket objects constructed so far (a handle is an index into
  \<open>sockets\<close>), the page's variables, the four fields of the \<open>GameServer\<close> instance
  (\<open>ws\<close> is \<open>_ws\<close>), and two logs of the calls made to functions of the page:
  \<open>delivered\<close> has one entry (handler, data) for each call of a message handler,
  \<open>notified\<close> one entry (current handle, its \<open>readyState\<close>) for each call of
  \<open>onclosehandler\<close>.
\<close>

record 'env world =
  sockets :: "WebSocket list"
  env :: 'env
  ws :: nat
  onmessage_handler :: "'env handler list"
  message_queue :: "string list"
  onclosehandler :: "'env closure"
  delivered :: "(nat \<times> json) list"
  notified :: "(nat \<times> nat) list"

definition current :: "'env world \<Rightarrow> WebSocket" where
  "current w = sockets w ! ws w"

text \<open>\<open>this._ws.send(data_str)\<close>\<close>

definition ws_send :: "string \<Rightarrow> 'env world \<Rightarrow> 'env world result" where
  "ws_send data_str w =
     (case socket_send data_str (current w) of
        Inl e \<Rightarrow> Thrown e w
      | Inr s \<Rightarrow> Normal (w\<lparr>sockets := (sockets w)[ws w := s]\<rparr>))"

definition send :: "json \<Rightarrow> 'env world \<Rightarrow> 'env world result" where
  "send data w =
     (let data_str = JSON_stringify data in
      if readyState (current w) = 1 then ws_send data_str w
      else Normal (w\<lparr>message_queue := message_queue w @ [data_str]\<rparr>))"

definition createRoom :: "string \<Rightarrow> 'env world \<Rightarrow> 'env world result" where
  "createRoom name w = send (JObj [(''CreateRoom'', JObj [(''name'', JStr name)])]) w"

definition joinRoom :: "string \<Rightarrow> string \<Rightarrow> 'env world \<Rightarrow> 'env world result" where
  "joinRoom room_id name w =
     send (JObj [(''JoinRoom'', JObj [(''name'', JStr name), (''room_id'', JStr room_id)])]) w"

definition ready :: "'env world \<Rightarrow> 'env world result" where
  "ready w = send (JObj [(''Ready'', JObj [])]) w"

definition activePlayerChoose :: "string \<Rightarrow> string \<Rightarrow> 'env world \<Rightarrow> 'env world result" where
  "activePlayerChoose card' description w =
     send (JObj [(''ActivePlayerChooseCard'',
                  JObj [(''card'', JStr card'), (''description'', JStr description)])]) w"

definition playersChoose :: "string \<Rightarrow> 'env world \<Rightarrow> 'env world result" where
  "playersChoose card' w =
     send (JObj [(''PlayerChooseCard'', JObj [(''card'', JStr card')])]) w"

definition vote :: "string \<Rightarrow> 'env world \<Rightarrow> 'env world result" where
  "vote card' w = send (JObj [(''Vote'', JObj [(''card'', JStr card')])]) w"

definition addMsgHandler :: "'env handler \<Rightarrow> 'env world \<Rightarrow> 'env world" where
  "addMsgHandler func w = w\<lparr>onmessage_handler := onmessage_handler w @ [func]\<rparr>"

definition close :: "'env world \<Rightarrow> 'env world" where
  "close w = w\<lparr>sockets := (sockets w)[ws w := socket_close (current w)]\<rparr>"

definition onclose :: "'env closure \<Rightarrow> 'env world \<Rightarrow> 'env world" where
  "onclose func w = w\<lparr>onclosehandler := func\<rparr>"

text \<open>One method call made by the page.\<close>

fun exec :: "'env cmd \<Rightarrow> 'env world \<Rightarrow> 'env world result" where
  "exec (Send data) w = send data w"
| "exec (CreateRoom name) w = createRoom name w"
| "exec (JoinRoom room_id name) w = joinRoom room_id name w"
| "exec Ready w = ready w"
| "exec (ActivePlayerChoose card' description) w = activePlayerChoose card' description w"
| "exec (PlayersChoose card') w = playersChoose card' w"
| "exec (Vote card') w = vote card' w"
| "exec (AddMsgHandler i func) w = Normal (addMsgHandler (i, func) w)"
| "exec Close w = Normal (close w)"
| "exec (OnClose func) w = Normal (onclose func w)"

text \<open>Calling a closure of the page: its calls are made, and then it returns or throws.\<close>

definition call :: "'env closure \<Rightarrow> 'env world \<Rightarrow> 'env world result" where
  "call c w =
     (case c (env w) of
        (e, cmds, how) \<Rightarrow>
          (case forEach cmds exec (w\<lparr>env := e\<rparr>) of
             Normal w' \<Rightarrow> (case how of Returns \<Rightarrow> Normal w' | Throws \<Rightarrow> Thrown Uncaught w')
           | Thrown x w' \<Rightarrow> Thrown x w'))"

text \<open>\<open>setupSocket\<close> assigns the three event handlers of the current socket. Their
  bodies follow.\<close>

definition setupSocket :: "'env world \<Rightarrow> 'env world" where
  "setupSocket w = w\<lparr>sockets := (sockets w)[ws w := (current w)\<lparr>installed := True\<rparr>]\<rparr>"

definition ws_onopen :: "'env world \<Rightarrow> 'env world result" where
  "ws_onopen w =
     (if length (message_queue w) > 0 then
        (case forEach (message_queue w) ws_send w of
           Normal w' \<Rightarrow> Normal (w'\<lparr>message_queue := []\<rparr>)
         | Thrown e w' \<Rightarrow> Thrown e w')
      else Normal w)"

text \<open>\<open>JSON.parse\<close> is a parameter: \<open>None\<close> is its \<open>SyntaxError\<close>.\<close>

definition invoke :: "json \<Rightarrow> 'env handler \<Rightarrow> 'env world \<Rightarrow> 'env world result" where
  "invoke data handler w =
     call (snd handler data) (w\<lparr>delivered := delivered w @ [(fst handler, data)]\<rparr>)"

definition ws_onmessage ::
  "(string \<Rightarrow> json option) \<Rightarrow> string \<Rightarrow> 'env world \<Rightarrow> 'env world result" where
  "ws_onmessage JSON_parse frame w =
     (case JSON_parse frame of
        None \<Rightarrow> Thrown SyntaxError w
      | Some data \<Rightarrow> forEach (onmessage_handler w) (invoke data) w)"

definition ws_onclose :: "'env world \<Rightarrow> 'env world result" where
  "ws_onclose w =
     (let w1 = w\<lparr>sockets := sockets w @ [new_WebSocket], ws := length (sockets w)\<rparr>;
          w2 = setupSocket w1
      in call (onclosehandler w2)
           (w2\<lparr>notified := notified w2 @ [(ws w2, readyState (current w2))]\<rparr>))"

text \<open>The constructor, in a page whose variables are \<open>e\<close>.\<close>

definition GameServer :: "'env \<Rightarrow> 'env world" where
  "GameServer e =
     setupSocket
       \<lparr>sockets = [new_WebSocket], env = e, ws = 0, onmessage_handler = [],
        message_queue = [], onclosehandler = (\<lambda>e. (e, [], Returns)), delivered = [], notified = []\<rparr>"

section \<open>The event loop\<close>

text \<open>
  One turn of the browser's event loop. The browser fires \<open>open\<close> on a CONNECTING socket,
  \<open>message\<close> on an OPEN socket and \<open>close\<close> on a socket that is not yet CLOSED, after
  setting \<open>readyState\<close>; an event that cannot occur leaves the state as it is. An
  exception that leaves a handler is reported and the loop goes on from the state at the
  throw. \<open>Page c\<close> is a turn in which code of the page runs.
\<close>

datatype 'env event =
    Open nat
  | Message nat string
  | Closed nat
  | Page "'env closure"

definition set_readyState :: "nat \<Rightarrow> nat \<Rightarrow> 'env world \<Rightarrow> 'env world" where
  "set_readyState h r w = w\<lparr>sockets := (sockets w)[h := (sockets w ! h)\<lparr>readyState := r\<rparr>]\<rparr>"

fun step :: "(string \<Rightarrow> json option) \<Rightarrow> 'env event \<Rightarrow> 'env world \<Rightarrow> 'env world" where
  "step JSON_parse (Open h) w =
     (if h < length (sockets w) \<and> readyState (sockets w ! h) = 0 then
        (if installed (sockets w ! h) then state_of (ws_onopen (set_readyState h 1 w))
         else set_readyState h 1 w)
      else w)"
| "step JSON_parse (Message h frame) w =
     (if h < length (sockets w) \<and> readyState (sockets w ! h) = 1
         \<and> installed (sockets w ! h)
      then state_of (ws_onmessage JSON_parse frame w) else w)"
| "step JSON_parse (Closed h) w =
     (if h < length (sockets w) \<and> readyState (sockets w ! h) \<noteq> 3 then
        (if installed (sockets w ! h) then state_of (ws_onclose (set_readyState h 3 w))
         else set_readyState h 3 w)
      else w)"
| "step JSON_parse (Page c) w = state_of (call c w)"

definition run :: "(string \<Rightarrow> json option) \<Rightarrow> 'env event list \<Rightarrow> 'env world \<Rightarrow> 'env world" where
  "run JSON_parse evs w = fold (step JSON_parse) evs w"

text \<open>
  Everything the sockets have put on the network. In a well-formed state every socket but
  the newest is CLOSED, so this is the chronological order of transmission.
\<close>

definition wire :: "'env world \<Rightarrow> string list" where
  "wire w = concat (map transmitted (sockets w))"

text \<open>
  The states the constructor and the event loop produce: the current socket is the
  newest one and has its handlers, every older socket is CLOSED, and a socket that is
  still CONNECTING has transmitted nothing.
\<close>

definition wf :: "'env world \<Rightarrow> bool" where
  "wf w \<longleftrightarrow>
     sockets w \<noteq> [] \<and> ws w = length (sockets w) - 1 \<and> installed (current w)
     \<and> list_all (\<lambda>s. readyState s = 3) (butlast (sockets w))
     \<and> (readyState (current w) = 0 \<longrightarrow> transmitted (current w) = [])"

text \<open>The text a method call passes on to \<open>send\<close>, if any.\<close>

fun outgoing :: "'env cmd \<Rightarrow> string list" where
  "outgoing (Send data) = [JSON_stringify data]"
| "outgoing (CreateRoom name) =
     [JSON_stringify (JObj [(''CreateRoom'', JObj [(''name'', JStr name)])])]"
| "outgoing (JoinRoom room_id name) =
     [JSON_stringify
        (JObj [(''JoinRoom'', JObj [(''name'', JStr name), (''room_id'', JStr room_id)])])]"
| "outgoing Ready = [JSON_stringify (JObj [(''Ready'', JObj [])])]"
| "outgoing (ActivePlayerChoose card' description) =
     [JSON_stringify
        (JObj [(''ActivePlayerChooseCard'',
                JObj [(''card'', JStr card'), (''description'', JStr description)])])]"
| "outgoing (PlayersChoose card') =
     [JSON_stringify (JObj [(''PlayerChooseCard'', JObj [(''card'', JStr card')])])]"
| "outgoing (Vote card') = [JSON_stringify (JObj [(''Vote'', JObj [(''card'', JStr card')])])]"
| "outgoing (AddMsgHandler i func) = []"
| "outgoing Close = []"
| "outgoing (OnClose func) = []"

text \<open>
  What a dispatch of \<open>data\<close> to the observers \<open>hs\<close> amounts to when the page's variables
  are \<open>e\<close>: the observers that are called (all of them, or those up to the first one that
  throws), the page's variables afterwards, and the method calls the called observers
  make, in order.
\<close>

fun called :: "json \<Rightarrow> 'env handler list \<Rightarrow> 'env \<Rightarrow> 'env handler list" where
  "called data [] e = []"
| "called data (hdl # hs) e =
     (case snd hdl data e of
        (e', cmds, Returns) \<Rightarrow> hdl # called data hs e'
      | (e', cmds, Throws) \<Rightarrow> [hdl])"

fun env_after :: "json \<Rightarrow> 'env handler list \<Rightarrow> 'env \<Rightarrow> 'env" where
  "env_after data [] e = e"
| "env_after data (hdl # hs) e =
     (case snd hdl data e of
        (e', cmds, Returns) \<Rightarrow> env_after data hs e'
      | (e', cmds, Throws) \<Rightarrow> e')"

fun calls_made :: "json \<Rightarrow> 'env handler list \<Rightarrow> 'env \<Rightarrow> 'env cmd list" where
  "calls_made data [] e = []"
| "calls_made data (hdl # hs) e =
     (case snd hdl data e of
        (e', cmds, Returns) \<Rightarrow> cmds @ calls_made data hs e'
      | (e', cmds, Throws) \<Rightarrow> cmds)"

section \<open>The page of \<open>routes/game/[roomCode]\<close>\<close>

text \<open>
  The variables of the page that its close callback and its teardown use, the callback
  it passes to \<open>onclose\<close> in \<open>onMount\<close>, and its \<open>onDestroy\<close>.
\<close>

record page =
  rejoin :: bool
  roomCode :: string
  player :: string

definition page_onclose :: "page closure" where
  "page_onclose e =
     (e, if rejoin e then [JoinRoom (roomCode e) (player e)] else [], Returns)"

definition page_onDestroy :: "page closure" where
  "page_onDestroy e = (e\<lparr>rejoin := False\<rparr>, [Close], Returns)"

section \<open>The client of \<open>src/gameServer.ts\<close>\<close>

text \<open>
  The older variant keeps the room it has joined and the player's name, and has no
  close callback. \<open>joined_room\<close> is assigned from a decoded frame, so it can hold any
  JSON value or \<open>undefined\<close> (\<open>None\<close>); it starts as the empty string.
\<close>

datatype 'env cmd2 =
    Ping2
  | Send2 json
  | CreateRoom2 string
  | JoinRoom2 string string
  | StartRound2
  | ActivePlayerChoose2 string string
  | PlayersChoose2 string
  | Vote2 string
  | AddMsgHandler2 nat "json \<Rightarrow> 'env \<Rightarrow> 'env \<times> 'env cmd2 list \<times> outcome"
  | Close2

type_synonym 'env closure2 = "'env \<Rightarrow> 'env \<times> 'env cmd2 list \<times> outcome"

type_synonym 'env handler2 = "nat \<times> (json \<Rightarrow> 'env closure2)"

record 'env world2 =
  sockets2 :: "WebSocket list"
  env2 :: 'env
  ws2 :: nat
  onmessage_handler2 :: "'env handler2 list"
  message_queue2 :: "string list"
  opened :: bool
  joined_room :: "json option"
  name2 :: string
  delivered2 :: "(nat \<times> json) list"


definition wire2 :: "'env world2 \<Rightarrow> string list" where
  "wire2 g = concat (map transmitted (sockets2 g))"



















section \<open>A decoder for worked examples\<close>

text \<open>A \<open>JSON.parse\<close> that knows the frames which serialise the listed values, and rejects
  every other text.\<close>

definition decoder_of :: "json list \<Rightarrow> string \<Rightarrow> json option" where
  "decoder_of known frame = List.find (\<lambda>v. JSON_stringify v = frame) known"

section \<open>Worked examples\<close>


definition room_state :: json where
  "room_state = JObj [(''RoomState'', JObj [(''players'', JObj []), (''stage'', JStr ''Joining'')])]"

definition ready_msg :: json where
  "ready_msg = JObj [(''Ready'', JObj [])]"

definition join_msg :: json where
  "join_msg = JObj [(''JoinRoom'', JObj [(''name'', JStr ''Ann''), (''room_id'', JStr ''AB12'')])]"

definition vote_msg :: json where
  "vote_msg = JObj [(''Vote'', JObj [(''card'', JStr ''c1'')])]"

definition no_frames :: "string \<Rightarrow> json option" where
  "no_frames = decoder_of []"

definition ann :: page where
  "ann = \<lparr>rejoin = True, roomCode = ''AB12'', player = ''Ann''\<rparr>"

text \<open>A session whose first socket is OPEN and that has two observers, 0 and 1.\<close>

definition two_observers :: "unit world" where
  "two_observers =
     run (decoder_of [room_state])
       [Page (\<lambda>e. (e, [AddMsgHandler 0 (\<lambda>d e. (e, [], Returns)), AddMsgHandler 1 (\<lambda>d e. (e, [], Returns))], Returns)),
        Open 0]
       (GameServer ())"

text \<open>The first socket is OPEN; observer 0 votes on every frame, observer 1 sets the
  page's only variable.\<close>

definition voting_observers :: "bool world" where
  "voting_observers =
     run (decoder_of [room_state])
       [Page (\<lambda>e. (e, [AddMsgHandler 0 (\<lambda>d e. (e, [Vote ''c1''], Returns)),
                        AddMsgHandler 1 (\<lambda>d e. (True, [], Returns))], Returns)),
        Open 0]
       (GameServer False)"

text \<open>The first socket is OPEN; observer 0 throws on every frame, observer 1 sets the
  page's only variable.\<close>

definition first_observer_throws :: "bool world" where
  "first_observer_throws =
     run (decoder_of [room_state])
       [Page (\<lambda>e. (e, [AddMsgHandler 0 (\<lambda>d e. (e, [], Throws)),
                        AddMsgHandler 1 (\<lambda>d e. (True, [], Returns))], Returns)),
        Open 0]
       (GameServer False)"

text \<open>The page has installed its close callback and voted while the first socket is
  still CONNECTING.\<close>

definition offline_vote :: "page world" where
  "offline_vote =
     run no_frames
       [Page (\<lambda>e. (e, [OnClose page_onclose], Returns)), Page (\<lambda>e. (e, [Vote ''c1''], Returns))]
       (GameServer ann)"

text \<open>Two intents are sent before the first socket opens, and the connection attempt
  fails.\<close>

definition failed_first_attempt :: "unit world" where
  "failed_first_attempt =
     run no_frames [Closed 0] (state_of (forEach [join_msg, ready_msg] send (GameServer ())))"

text \<open>The page keeps the intent object itself as its only variable and sends it.\<close>

definition object_sent :: "json world" where
  "object_sent = step no_frames (Page (\<lambda>e. (e, [Send e], Returns))) (GameServer vote_msg)"

text \<open>The socket opens, the page calls \<open>close\<close> and then \<open>send\<close>.\<close>

definition closed_by_page :: "unit world" where
  "closed_by_page = state_of (send ready_msg (close (run no_frames [Open 0] (GameServer ()))))"

section \<open>Relations between states\<close>

text \<open>\<open>newest\<close>: the current handle is the socket constructed last.\<close>

definition newest :: "'env world \<Rightarrow> bool" where
  "newest w \<longleftrightarrow> sockets w \<noteq> [] \<and> ws w = length (sockets w) - 1"

text \<open>\<open>ext w w'\<close>: what method calls made by the page can change. They leave the older
  sockets, the handle and the logs alone, they only append to the buffer, to the
  observers and to the frames of the current socket, and they cannot make a socket
  OPEN.\<close>

definition ext :: "'env world \<Rightarrow> 'env world \<Rightarrow> bool" where
  "ext w w' \<longleftrightarrow>
     ws w' = ws w \<and> length (sockets w') = length (sockets w)
     \<and> butlast (sockets w') = butlast (sockets w)
     \<and> installed (current w') = installed (current w)
     \<and> prefix (transmitted (current w)) (transmitted (current w'))
     \<and> prefix (message_queue w) (message_queue w')
     \<and> prefix (onmessage_handler w) (onmessage_handler w')
     \<and> delivered w' = delivered w \<and> notified w' = notified w
     \<and> (readyState (current w) \<noteq> 1 \<longrightarrow>
          readyState (current w') \<noteq> 1 \<and> transmitted (current w') = transmitted (current w))
     \<and> (readyState (current w') = 0 \<longrightarrow> readyState (current w) = 0)"

text \<open>The state in which the close handler calls the callback: the old socket is CLOSED,
  a new CONNECTING socket with handlers is current, and the call is logged.\<close>

definition replaced :: "'env world \<Rightarrow> 'env world" where
  "replaced w =
     w\<lparr>ws := length (sockets w),
       sockets := (sockets w)[ws w := (current w)\<lparr>readyState := 3\<rparr>]
                   @ [new_WebSocket\<lparr>installed := True\<rparr>],
       notified := notified w @ [(length (sockets w), 0)]\<rparr>"

text \<open>\<open>emitted ts w w'\<close>: the texts \<open>ts\<close> have been sent between \<open>w\<close> and \<open>w'\<close>: the
  first \<open>n\<close> were transmitted and the others were appended to the buffer, which happens
  from the moment the current socket is not OPEN.\<close>

definition emitted :: "string list \<Rightarrow> 'env world \<Rightarrow> 'env world \<Rightarrow> bool" where
  "emitted ts w w' \<longleftrightarrow>
     (\<exists>n. wire w' = wire w @ take n ts \<and> message_queue w' = message_queue w @ drop n ts
          \<and> (readyState (current w) \<noteq> 1 \<longrightarrow> n = 0)
          \<and> (drop n ts \<noteq> [] \<longrightarrow> readyState (current w') \<noteq> 1))"

text \<open>\<open>grows\<close>: what every turn of the event loop keeps.\<close>

definition grows :: "'env world \<Rightarrow> 'env world \<Rightarrow> bool" where
  "grows w w' \<longleftrightarrow>
     prefix (wire w) (wire w') \<and> prefix (onmessage_handler w) (onmessage_handler w')
     \<and> length (sockets w') - length (notified w') = length (sockets w) - length (notified w)
     \<and> length (notified w) \<le> length (notified w')"

text \<open>\<open>quiet\<close>: no socket is OPEN afterwards, nothing was transmitted, and the buffer was
  only appended to.\<close>

definition quiet :: "'env world \<Rightarrow> 'env world \<Rightarrow> bool" where
  "quiet w w' \<longleftrightarrow>
     readyState (current w') \<noteq> 1 \<and> prefix (message_queue w) (message_queue w')
     \<and> wire w' = wire w"

section \<open>Method calls of the page\<close>

lemma wf_newest: "wf w \<Longrightarrow> newest w"
  by (simp add: wf_def newest_def)

lemma newest_less: "newest w \<Longrightarrow> ws w < length (sockets w)"
  by (simp add: newest_def)

lemma ext_refl: "ext w w"
  by (simp add: ext_def)

lemma ext_trans: "ext a b \<Longrightarrow> ext b c \<Longrightarrow> ext a c"
  unfolding ext_def current_def by (auto dest: prefix_order.trans)

lemma ext_env: "ext w (w\<lparr>env := e\<rparr>)"
  by (simp add: ext_def current_def)

lemma ext_newest: "ext w w' \<Longrightarrow> newest w \<Longrightarrow> newest w'"
  by (auto simp: ext_def newest_def)

lemma send_ext:
  assumes "newest w"
  shows "\<exists>w'. send d w = Normal w' \<and> ext w w'"
  using assms
  by (auto simp: newest_def send_def ws_send_def socket_send_def ext_def current_def Let_def
      butlast_list_update)

lemma close_ext:
  assumes "newest w"
  shows "ext w (close w)"
  using assms
  by (auto simp: newest_def close_def socket_close_def ext_def current_def butlast_list_update)

lemma addMsgHandler_ext: "ext w (addMsgHandler h w)"
  by (simp add: addMsgHandler_def ext_def current_def)

lemma onclose_ext: "ext w (onclose f w)"
  by (simp add: onclose_def ext_def current_def)

lemma exec_ext:
  assumes "newest w"
  shows "\<exists>w'. exec c w = Normal w' \<and> ext w w'"
  using send_ext[OF assms] close_ext[OF assms]
  by (cases c)
    (simp_all add: createRoom_def joinRoom_def ready_def activePlayerChoose_def
      playersChoose_def vote_def addMsgHandler_ext onclose_ext)

lemma forEach_exec_ext:
  assumes "newest w"
  shows "\<exists>w'. forEach cmds exec w = Normal w' \<and> ext w w'"
  using assms
proof (induction cmds arbitrary: w)
  case Nil
  then show ?case by (simp add: ext_refl)
next
  case (Cons c cmds)
  from exec_ext[OF Cons.prems, of c] obtain w1 where
    w1: "exec c w = Normal w1" "ext w w1" by blast
  from ext_newest[OF w1(2) Cons.prems] Cons.IH[of w1] obtain w2 where
    w2: "forEach cmds exec w1 = Normal w2" "ext w1 w2" by blast
  from w1 w2 show ?case by (auto intro: ext_trans)
qed

lemma state_of_outcome:
  "state_of (case how of Returns \<Rightarrow> Normal w | Throws \<Rightarrow> Thrown Uncaught w) = w"
  by (cases how) simp_all

lemma exec_env: "exec c w = Normal w' \<Longrightarrow> env w' = env w"
  by (cases c)
    (auto simp: createRoom_def joinRoom_def ready_def activePlayerChoose_def playersChoose_def
      vote_def send_def ws_send_def socket_send_def addMsgHandler_def close_def onclose_def
      Let_def split: if_splits)

lemma forEach_exec_env: "forEach cmds exec w = Normal w' \<Longrightarrow> env w' = env w"
proof (induction cmds arbitrary: w)
  case Nil
  then show ?case by simp
next
  case (Cons c cmds)
  then show ?case
    by (cases "exec c w") (auto dest: exec_env)
qed

text \<open>A call of a closure: its calls are all made, whether it returns or throws.\<close>

lemma call_run:
  assumes "newest w" "c (env w) = (e, cmds, how)"
  shows "\<exists>w'. forEach cmds exec (w\<lparr>env := e\<rparr>) = Normal w' \<and> ext w w' \<and> env w' = e
           \<and> call c w = (case how of Returns \<Rightarrow> Normal w' | Throws \<Rightarrow> Thrown Uncaught w')"
proof -
  have "newest (w\<lparr>env := e\<rparr>)"
    using assms(1) by (simp add: newest_def)
  from forEach_exec_ext[OF this, of cmds] obtain w' where
    w': "forEach cmds exec (w\<lparr>env := e\<rparr>) = Normal w'" "ext (w\<lparr>env := e\<rparr>) w'" by blast
  have "ext w w'" by (rule ext_trans[OF ext_env w'(2)])
  moreover have "env w' = e" using forEach_exec_env[OF w'(1)] by simp
  moreover have "call c w = (case how of Returns \<Rightarrow> Normal w' | Throws \<Rightarrow> Thrown Uncaught w')"
    using assms(2) w'(1) by (simp add: call_def)
  ultimately show ?thesis using w'(1) by blast
qed

lemma call_ext:
  assumes "newest w"
  shows "ext w (state_of (call c w))"
proof -
  obtain e cmds how where "c (env w) = (e, cmds, how)" by (cases "c (env w)")
  from call_run[where c=c, OF assms this] show ?thesis by (auto simp: state_of_outcome)
qed

lemma ext_wf: "wf w \<Longrightarrow> ext w w' \<Longrightarrow> wf w'"
  unfolding wf_def ext_def by auto

lemma wire_newest:
  assumes "newest w"
  shows "wire w = concat (map transmitted (butlast (sockets w))) @ transmitted (current w)"
proof -
  from assms have "last (sockets w) = current w"
    by (simp add: newest_def current_def last_conv_nth)
  with assms have "sockets w = butlast (sockets w) @ [current w]"
    by (metis append_butlast_last_id newest_def)
  then have "map transmitted (sockets w) =
      map transmitted (butlast (sockets w)) @ [transmitted (current w)]"
    by (metis list.simps(8,9) map_append)
  then show ?thesis by (simp add: wire_def)
qed

lemma ext_wire:
  assumes "ext w w'" "newest w"
  shows "prefix (wire w) (wire w')"
    and "readyState (current w) \<noteq> 1 \<Longrightarrow> wire w' = wire w"
  using assms wire_newest[OF assms(2)] wire_newest[OF ext_newest[OF assms]]
  by (auto simp: ext_def)

section \<open>The three socket events\<close>

lemma wf_only_current_live:
  assumes "wf w" "h < length (sockets w)" "readyState (sockets w ! h) \<noteq> 3"
  shows "h = ws w"
proof (rule ccontr)
  assume "h \<noteq> ws w"
  with assms have "h < length (butlast (sockets w))" by (simp add: wf_def)
  then have "sockets w ! h \<in> set (butlast (sockets w))"
    by (metis nth_butlast nth_mem)
  with assms show False by (simp add: wf_def list_all_iff)
qed

lemma flush:
  assumes "ws w < length (sockets w)" "readyState (current w) = 1"
  shows "forEach q ws_send w =
         Normal (w\<lparr>sockets := (sockets w)[ws w := (current w)\<lparr>transmitted := transmitted (current w) @ q\<rparr>]\<rparr>)"
  using assms
proof (induction q arbitrary: w)
  case Nil
  then show ?case by (simp add: current_def)
next
  case (Cons x q)
  then show ?case
    by (simp add: ws_send_def socket_send_def current_def)
qed

lemma ws_onopen_flush:
  assumes "ws w < length (sockets w)" "readyState (current w) = 1"
  shows "ws_onopen w =
         Normal (w\<lparr>sockets := (sockets w)[ws w := (current w)\<lparr>transmitted := transmitted (current w) @ message_queue w\<rparr>],
                  message_queue := []\<rparr>)"
proof (cases "message_queue w = []")
  case True
  have "w\<lparr>sockets := sockets w, message_queue := []\<rparr> = w"
    using True by (intro world.equality) simp_all
  with True assms show ?thesis
    by (simp add: ws_onopen_def current_def)
next
  case False
  then show ?thesis
    unfolding ws_onopen_def flush[OF assms] by simp
qed

lemma step_Open:
  assumes "wf w" "h < length (sockets w)" "readyState (sockets w ! h) = 0"
  shows "step P (Open h) w =
         w\<lparr>sockets := (sockets w)[h := (sockets w ! h)\<lparr>readyState := 1, transmitted := message_queue w\<rparr>],
           message_queue := []\<rparr>"
    and "h = ws w"
proof -
  show h: "h = ws w" using wf_only_current_live[OF assms(1,2)] assms(3) by simp
  let ?w1 = "set_readyState h 1 w"
  have inst: "installed (sockets w ! h)" and tr: "transmitted (sockets w ! h) = []"
    using assms h by (auto simp: wf_def current_def)
  have w1: "ws ?w1 < length (sockets ?w1)" "readyState (current ?w1) = 1"
    using assms h by (simp_all add: set_readyState_def current_def)
  have "step P (Open h) w = state_of (ws_onopen ?w1)"
    using assms inst by simp
  also have "\<dots> = w\<lparr>sockets := (sockets w)[h := (sockets w ! h)\<lparr>readyState := 1, transmitted := message_queue w\<rparr>],
           message_queue := []\<rparr>"
    unfolding ws_onopen_flush[OF w1] using assms h tr
    by (simp add: set_readyState_def current_def)
  finally show "step P (Open h) w =
         w\<lparr>sockets := (sockets w)[h := (sockets w ! h)\<lparr>readyState := 1, transmitted := message_queue w\<rparr>],
           message_queue := []\<rparr>" .
qed

lemma butlast_update_last:
  "xs \<noteq> [] \<Longrightarrow> xs[length xs - 1 := x] = butlast xs @ [x]"
  by (induction xs rule: rev_induct) simp_all

lemma append_update_last:
  "length xs = n \<Longrightarrow> (xs @ [a])[n := b] = xs @ [b]"
  by auto

lemma replaced_facts:
  assumes "wf w"
  shows "wf (replaced w)" "readyState (current (replaced w)) = 0"
    "message_queue (replaced w) = message_queue w" "wire (replaced w) = wire w"
    "onmessage_handler (replaced w) = onmessage_handler w"
    "delivered (replaced w) = delivered w"
    "length (sockets (replaced w)) = Suc (length (sockets w))"
    "ws (replaced w) = length (sockets w)"
    "onclosehandler (replaced w) = onclosehandler w" "env (replaced w) = env w"
proof -
  from assms have ne: "sockets w \<noteq> []" and last: "ws w = length (sockets w) - 1"
    and old: "list_all (\<lambda>s. readyState s = 3) (butlast (sockets w))"
    by (simp_all add: wf_def)
  have upd: "(sockets w)[ws w := x] = butlast (sockets w) @ [x]" for x
    using ne last by (metis butlast_update_last)
  have "list_all (\<lambda>s. readyState s = 3) ((sockets w)[ws w := (current w)\<lparr>readyState := 3\<rparr>])"
    using old unfolding upd by simp
  then show "wf (replaced w)"
    by (simp add: wf_def replaced_def current_def nth_append new_WebSocket_def)
  show "readyState (current (replaced w)) = 0"
    by (simp add: replaced_def current_def nth_append new_WebSocket_def)
  show "wire (replaced w) = wire w"
    using wire_newest[OF wf_newest[OF assms]]
    by (simp add: replaced_def wire_def upd new_WebSocket_def)
qed (simp_all add: replaced_def)

lemma step_Closed:
  assumes "wf w" "h < length (sockets w)" "readyState (sockets w ! h) \<noteq> 3"
  shows "h = ws w" and "step P (Closed h) w = state_of (call (onclosehandler w) (replaced w))"
proof -
  show h: "h = ws w" using wf_only_current_live[OF assms] .
  have inst: "installed (sockets w ! h)"
    using assms h by (auto simp: wf_def current_def)
  have "ws_onclose (set_readyState h 3 w) = call (onclosehandler w) (replaced w)"
    using assms h
    by (simp add: ws_onclose_def set_readyState_def setupSocket_def replaced_def current_def
        Let_def nth_append new_WebSocket_def append_update_last)
  with assms inst show "step P (Closed h) w = state_of (call (onclosehandler w) (replaced w))"
    by simp
qed

lemma step_Closed_ext:
  assumes "wf w" "h < length (sockets w)" "readyState (sockets w ! h) \<noteq> 3"
  shows "ext (replaced w) (step P (Closed h) w)"
proof -
  from call_ext[OF wf_newest[OF replaced_facts(1)[OF assms(1)]], of "onclosehandler w"]
  show ?thesis unfolding step_Closed(2)[OF assms] .
qed

lemma step_Page_ext:
  assumes "wf w"
  shows "ext w (step P (Page c) w)"
  using call_ext[OF wf_newest[OF assms], of c] by simp

lemma ext_delivered:
  "ext a b \<Longrightarrow> ext (a\<lparr>delivered := delivered a @ xs\<rparr>) (b\<lparr>delivered := delivered b @ xs\<rparr>)"
  by (auto simp: ext_def current_def)

lemma ext_upd_delivered:
  "ext (a\<lparr>delivered := d\<rparr>) b \<Longrightarrow> ext (a\<lparr>delivered := d'\<rparr>) (b\<lparr>delivered := d'\<rparr>)"
  by (auto simp: ext_def current_def)

lemma invoke_ext:
  assumes "newest w"
  shows "ext (w\<lparr>delivered := delivered w @ [(fst hdl, data)]\<rparr>) (state_of (invoke data hdl w))"
proof -
  have "newest (w\<lparr>delivered := delivered w @ [(fst hdl, data)]\<rparr>)"
    using assms by (simp add: newest_def)
  from call_ext[OF this] show ?thesis by (simp add: invoke_def)
qed

lemma dispatch_ext:
  assumes "newest w"
  shows "ext (w\<lparr>delivered := delivered (state_of (forEach hs (invoke data) w))\<rparr>)
             (state_of (forEach hs (invoke data) w))"
  using assms
proof (induction hs arbitrary: w)
  case Nil
  have "w\<lparr>delivered := delivered w\<rparr> = w" by simp
  then show ?case by (simp add: ext_refl)
next
  case (Cons hdl hs)
  let ?w1 = "state_of (invoke data hdl w)"
  note x = invoke_ext[OF Cons.prems, of hdl data]
  have n1: "newest ?w1" using ext_newest[OF x] Cons.prems by (simp add: newest_def)
  show ?case
  proof (cases "invoke data hdl w")
    case (Normal w1)
    let ?w2 = "state_of (forEach hs (invoke data) w1)"
    from Normal n1 have "newest w1" by simp
    from Cons.IH[OF this] have b: "ext (w1\<lparr>delivered := delivered ?w2\<rparr>) ?w2" .
    from Normal x have "ext (w\<lparr>delivered := delivered w @ [(fst hdl, data)]\<rparr>) w1" by simp
    from ext_upd_delivered[OF this, of "delivered ?w2"]
    have "ext (w\<lparr>delivered := delivered ?w2\<rparr>) (w1\<lparr>delivered := delivered ?w2\<rparr>)" .
    from ext_trans[OF this b] Normal show ?thesis by simp
  next
    case (Thrown x1 w1)
    with x have "ext (w\<lparr>delivered := delivered w @ [(fst hdl, data)]\<rparr>) w1" by simp
    moreover from this have "delivered w1 = delivered w @ [(fst hdl, data)]"
      by (simp add: ext_def)
    ultimately show ?thesis using Thrown by simp
  qed
qed

lemma step_Message_ext:
  assumes "wf w" "h < length (sockets w)" "readyState (sockets w ! h) = 1"
    "P frame = Some data"
  shows "step P (Message h frame) w = state_of (forEach (onmessage_handler w) (invoke data) w)"
    and "\<exists>d. ext (w\<lparr>delivered := d\<rparr>) (step P (Message h frame) w)"
proof -
  have h: "h = ws w" using wf_only_current_live[OF assms(1,2)] assms(3) by simp
  have inst: "installed (sockets w ! h)"
    using assms h by (auto simp: wf_def current_def)
  show eq: "step P (Message h frame) w = state_of (forEach (onmessage_handler w) (invoke data) w)"
    using assms inst by (simp add: ws_onmessage_def)
  from dispatch_ext[OF wf_newest[OF assms(1)], of "onmessage_handler w" data]
  show "\<exists>d. ext (w\<lparr>delivered := d\<rparr>) (step P (Message h frame) w)"
    unfolding eq by blast
qed

lemma step_Message_cases:
  "step P (Message h frame) w = w \<or>
   (\<exists>data. h < length (sockets w) \<and> readyState (sockets w ! h) = 1 \<and> P frame = Some data)"
  by (cases "P frame") (auto simp: ws_onmessage_def)

declare step.simps [simp del]

lemma step_Page: "step P (Page c) w = state_of (call c w)"
  by (simp add: step.simps)

lemma wf_upd_delivered: "wf (w\<lparr>delivered := d\<rparr>) = wf w"
  by (simp add: wf_def current_def)

lemma wire_upd_delivered: "wire (w\<lparr>delivered := d\<rparr>) = wire w"
  by (simp add: wire_def)

lemma step_Open_disabled:
  "\<not> (h < length (sockets w) \<and> readyState (sockets w ! h) = 0) \<Longrightarrow> step P (Open h) w = w"
  by (auto simp: step.simps)

lemma step_Closed_disabled:
  "\<not> (h < length (sockets w) \<and> readyState (sockets w ! h) \<noteq> 3) \<Longrightarrow> step P (Closed h) w = w"
  by (auto simp: step.simps)

lemma opened_facts:
  fixes P :: "string \<Rightarrow> json option"
  assumes "wf w" "h < length (sockets w)" "readyState (sockets w ! h) = 0"
  defines "w' \<equiv> step P (Open h) w"
  shows "wf w'" "wire w' = wire w @ message_queue w" "message_queue w' = []"
    "transmitted (sockets w' ! h) = message_queue w" "readyState (current w') = 1"
    "onmessage_handler w' = onmessage_handler w" "notified w' = notified w"
    "delivered w' = delivered w" "length (sockets w') = length (sockets w)" "ws w' = ws w"
proof -
  note h = step_Open(2)[OF assms(1-3)]
  have eq: "w' = w\<lparr>sockets := (sockets w)[h := (sockets w ! h)\<lparr>readyState := 1, transmitted := message_queue w\<rparr>],
           message_queue := []\<rparr>"
    unfolding w'_def by (rule step_Open(1)[OF assms(1-3)])
  from assms(1) have ne: "sockets w \<noteq> []" and last: "ws w = length (sockets w) - 1"
    and old: "list_all (\<lambda>s. readyState s = 3) (butlast (sockets w))"
    and inst: "installed (current w)"
    by (simp_all add: wf_def)
  have tr: "transmitted (current w) = []"
    using assms h by (auto simp: wf_def current_def)
  show "wf w'"
    using ne last old inst assms(2) h
    by (simp add: eq wf_def current_def butlast_list_update)
  have w'n: "newest w'"
    using ne last by (simp add: eq newest_def)
  have "butlast (sockets w') = butlast (sockets w)"
    using last h by (simp add: eq butlast_list_update)
  moreover have "transmitted (current w') = message_queue w"
    using assms(2) h by (simp add: eq current_def)
  ultimately show "wire w' = wire w @ message_queue w"
    using wire_newest[OF w'n] wire_newest[OF wf_newest[OF assms(1)]] tr by simp
  show "readyState (current w') = 1"
    using assms(2) h by (simp add: eq current_def)
  show "transmitted (sockets w' ! h) = message_queue w"
    using assms(2) by (simp add: eq)
  show "message_queue w' = []" "onmessage_handler w' = onmessage_handler w"
    "notified w' = notified w" "delivered w' = delivered w"
    "length (sockets w') = length (sockets w)" "ws w' = ws w"
    by (simp_all add: eq)
qed

lemma step_wf:
  assumes "wf w"
  shows "wf (step P ev w)"
proof (cases ev)
  case (Open h)
  show ?thesis
  proof (cases "h < length (sockets w) \<and> readyState (sockets w ! h) = 0")
    case True
    then show ?thesis using opened_facts(1)[OF assms, of h P] Open by simp
  next
    case False
    then show ?thesis using assms Open step_Open_disabled[of h w P] by simp
  qed
next
  case (Message h frame)
  from step_Message_cases[of P h frame w] show ?thesis
  proof
    assume "step P (Message h frame) w = w"
    then show ?thesis using assms Message by simp
  next
    assume "\<exists>data. h < length (sockets w) \<and> readyState (sockets w ! h) = 1 \<and> P frame = Some data"
    then obtain data where d: "h < length (sockets w)" "readyState (sockets w ! h) = 1"
      "P frame = Some data" by blast
    from step_Message_ext(2)[where P=P and frame=frame, OF assms d] show ?thesis
      unfolding Message using ext_wf assms wf_upd_delivered by blast
  qed
next
  case (Closed h)
  show ?thesis
  proof (cases "h < length (sockets w) \<and> readyState (sockets w ! h) \<noteq> 3")
    case True
    then show ?thesis
      using step_Closed_ext[OF assms, of h P] replaced_facts(1)[OF assms] ext_wf Closed
      by blast
  next
    case False
    then show ?thesis using assms Closed step_Closed_disabled[of h w P] by simp
  qed
next
  case (Page c)
  then show ?thesis using step_Page_ext[OF assms, of P c] ext_wf[OF assms] by simp
qed

section \<open>Runs of the event loop\<close>

lemma run_Nil: "run P [] w = w"
  by (simp add: run_def)

lemma run_Cons: "run P (ev # evs) w = run P evs (step P ev w)"
  by (simp add: run_def)

lemma run_append: "run P (evs @ evs') w = run P evs' (run P evs w)"
  by (simp add: run_def)

lemma run_wf: "wf w \<Longrightarrow> wf (run P evs w)"
  by (induction evs arbitrary: w) (simp_all add: run_Nil run_Cons step_wf)

lemma grows_refl: "grows w w"
  by (simp add: grows_def)

lemma grows_trans: "grows a b \<Longrightarrow> grows b c \<Longrightarrow> grows a c"
  unfolding grows_def by (auto dest: prefix_order.trans)

lemma ext_grows:
  assumes "ext w w'" "newest w"
  shows "grows w w'"
  using assms ext_wire(1)[OF assms] by (simp add: grows_def ext_def)

lemma step_grows:
  assumes "wf w"
  shows "grows w (step P ev w)"
proof (cases ev)
  case (Open h)
  show ?thesis
  proof (cases "h < length (sockets w) \<and> readyState (sockets w ! h) = 0")
    case True
    then show ?thesis using opened_facts[OF assms, of h P] Open by (simp add: grows_def)
  next
    case False
    then show ?thesis using Open step_Open_disabled[of h w P] by (simp add: grows_refl)
  qed
next
  case (Message h frame)
  from step_Message_cases[of P h frame w] show ?thesis
  proof
    assume "step P (Message h frame) w = w"
    then show ?thesis using Message by (simp add: grows_refl)
  next
    assume "\<exists>data. h < length (sockets w) \<and> readyState (sockets w ! h) = 1 \<and> P frame = Some data"
    then obtain data where d: "h < length (sockets w)" "readyState (sockets w ! h) = 1"
      "P frame = Some data" by blast
    from step_Message_ext(2)[where P=P and frame=frame, OF assms d]
    obtain dl where "ext (w\<lparr>delivered := dl\<rparr>) (step P (Message h frame) w)" by blast
    then have "grows (w\<lparr>delivered := dl\<rparr>) (step P (Message h frame) w)"
      by (rule ext_grows) (insert wf_newest[OF assms], simp add: newest_def)
    then show ?thesis unfolding Message by (simp add: grows_def wire_def)
  qed
next
  case (Closed h)
  show ?thesis
  proof (cases "h < length (sockets w) \<and> readyState (sockets w ! h) \<noteq> 3")
    case True
    with step_Closed_ext[OF assms, of h P]
    have "grows (replaced w) (step P (Closed h) w)"
      using ext_grows wf_newest[OF replaced_facts(1)[OF assms]] by blast
    then show ?thesis unfolding Closed using replaced_facts[OF assms]
      by (simp add: grows_def) (simp add: replaced_def)
  next
    case False
    then show ?thesis using Closed step_Closed_disabled[of h w P] by (simp add: grows_refl)
  qed
next
  case (Page c)
  then show ?thesis using ext_grows[OF step_Page_ext[OF assms, of P c] wf_newest[OF assms]] by simp
qed

lemma run_grows: "wf w \<Longrightarrow> grows w (run P evs w)"
proof (induction evs arbitrary: w)
  case Nil
  then show ?case by (simp add: run_Nil grows_refl)
next
  case (Cons ev evs)
  from grows_trans[OF step_grows[OF Cons.prems] Cons.IH[OF step_wf[OF Cons.prems]]]
  show ?case by (simp add: run_Cons)
qed

lemma ext_quiet:
  assumes "ext w w'" "newest w" "readyState (current w) \<noteq> 1"
  shows "quiet w w'"
  using assms ext_wire(2)[OF assms] by (simp add: quiet_def ext_def)

lemma quiet_trans: "quiet a b \<Longrightarrow> quiet b c \<Longrightarrow> quiet a c"
  unfolding quiet_def by (auto dest: prefix_order.trans)

lemma step_quiet:
  assumes "wf w" "readyState (current w) \<noteq> 1" "\<And>h. ev \<noteq> Open h"
  shows "quiet w (step P ev w)"
proof (cases ev)
  case (Open h)
  with assms(3)[of h] show ?thesis by simp
next
  case (Message h frame)
  have "\<not> (h < length (sockets w) \<and> readyState (sockets w ! h) = 1)"
    using wf_only_current_live[OF assms(1), of h] assms(2) by (auto simp: current_def)
  then have "step P (Message h frame) w = w" by (auto simp: step.simps)
  then show ?thesis using assms(2) Message by (simp add: quiet_def)
next
  case (Closed h)
  show ?thesis
  proof (cases "h < length (sockets w) \<and> readyState (sockets w ! h) \<noteq> 3")
    case True
    with step_Closed_ext[OF assms(1), of h P]
    have "quiet (replaced w) (step P (Closed h) w)"
      using ext_quiet wf_newest[OF replaced_facts(1)[OF assms(1)]] replaced_facts(2)[OF assms(1)]
      by fastforce
    then show ?thesis unfolding Closed using replaced_facts[OF assms(1)]
      by (simp add: quiet_def)
  next
    case False
    then show ?thesis using assms(2) Closed step_Closed_disabled[of h w P]
      by (simp add: quiet_def)
  qed
next
  case (Page c)
  then show ?thesis
    using ext_quiet[OF step_Page_ext[OF assms(1), of P c] wf_newest[OF assms(1)] assms(2)] by simp
qed

lemma run_quiet:
  assumes "wf w" "readyState (current w) \<noteq> 1" "\<forall>h. Open h \<notin> set evs"
  shows "quiet w (run P evs w)"
  using assms
proof (induction evs arbitrary: w)
  case Nil
  then show ?case by (simp add: run_Nil quiet_def)
next
  case (Cons ev evs)
  have q: "quiet w (step P ev w)"
    using Cons.prems by (intro step_quiet) auto
  have "quiet (step P ev w) (run P evs (step P ev w))"
    using Cons.prems q by (intro Cons.IH step_wf) (auto simp: quiet_def)
  from quiet_trans[OF q this] show ?case by (simp add: run_Cons)
qed

lemma send_buffers:
  assumes "readyState (current w) \<noteq> 1"
  shows "send d w = Normal (w\<lparr>message_queue := message_queue w @ [JSON_stringify d]\<rparr>)"
  using assms by (simp add: send_def)

lemma exec_buffers:
  assumes "readyState (current w) \<noteq> 1" "ws w < length (sockets w)"
  shows "\<exists>w'. exec c w = Normal w' \<and> message_queue w' = message_queue w @ outgoing c
           \<and> readyState (current w') \<noteq> 1 \<and> ws w' < length (sockets w')"
  using assms
  by (cases c)
    (simp_all add: createRoom_def joinRoom_def ready_def activePlayerChoose_def
      playersChoose_def vote_def send_buffers addMsgHandler_def onclose_def close_def
      socket_close_def current_def)

lemma forEach_exec_buffers:
  assumes "readyState (current w) \<noteq> 1" "ws w < length (sockets w)"
  shows "\<exists>w'. forEach cmds exec w = Normal w'
           \<and> message_queue w' = message_queue w @ concat (map outgoing cmds)"
  using assms
proof (induction cmds arbitrary: w)
  case Nil
  then show ?case by simp
next
  case (Cons c cmds)
  from exec_buffers[OF Cons.prems, of c] obtain w1 where
    w1: "exec c w = Normal w1" "message_queue w1 = message_queue w @ outgoing c"
        "readyState (current w1) \<noteq> 1" "ws w1 < length (sockets w1)" by blast
  from Cons.IH[OF w1(3,4)] w1(1,2) show ?case by auto
qed

lemma sends_buffer:
  assumes "readyState (current w) \<noteq> 1"
  shows "forEach ds send w = Normal (w\<lparr>message_queue := message_queue w @ map JSON_stringify ds\<rparr>)"
  using assms
proof (induction ds arbitrary: w)
  case Nil
  then show ?case by simp
next
  case (Cons d ds)
  have "readyState (current (w\<lparr>message_queue := message_queue w @ [JSON_stringify d]\<rparr>)) \<noteq> 1"
    using Cons.prems by (simp add: current_def)
  from Cons.IH[OF this] Cons.prems show ?case
    by (simp add: send_buffers)
qed

lemma wf_upd_queue: "wf (w\<lparr>message_queue := q\<rparr>) = wf w"
  by (simp add: wf_def current_def)

lemma wf_upd_env: "wf (w\<lparr>env := e\<rparr>) = wf w"
  by (simp add: wf_def current_def)

lemma wf_GameServer: "wf (GameServer e)"
  by (simp add: wf_def GameServer_def setupSocket_def current_def new_WebSocket_def)

lemma buffered_then_sent:
  assumes "wf w1" "readyState (current w1) \<noteq> 1" "prefix ts (message_queue w1)"
  shows "(prefix ts (message_queue (run P evs w1)) \<and> wire (run P evs w1) = wire w1
            \<and> readyState (current (run P evs w1)) \<noteq> 1)
         \<or> prefix (wire w1 @ ts) (wire (run P evs w1))"
  using assms
proof (induction evs arbitrary: w1)
  case Nil
  then show ?case by (simp add: run_Nil)
next
  case (Cons ev evs)
  let ?w2 = "step P ev w1"
  have wf2: "wf ?w2" by (rule step_wf[OF Cons.prems(1)])
  show ?case
  proof (cases "\<exists>h. ev = Open h \<and> h < length (sockets w1) \<and> readyState (sockets w1 ! h) = 0")
    case True
    then obtain h where h: "ev = Open h" "h < length (sockets w1)"
      "readyState (sockets w1 ! h) = 0" by blast
    from opened_facts(2)[OF Cons.prems(1) h(2,3), of P] Cons.prems(3)
    have "prefix (wire w1 @ ts) (wire ?w2)" by (simp add: h(1))
    moreover have "prefix (wire ?w2) (wire (run P evs ?w2))"
      using run_grows[OF wf2] by (simp add: grows_def)
    ultimately show ?thesis by (auto simp: run_Cons dest: prefix_order.trans)
  next
    case False
    have q: "quiet w1 ?w2"
    proof (cases "\<exists>h. ev = Open h")
      case True
      then obtain h where "ev = Open h" by blast
      with False step_Open_disabled[of h w1 P] Cons.prems(2) show ?thesis
        by (auto simp: quiet_def)
    next
      case False
      then show ?thesis using Cons.prems by (intro step_quiet) auto
    qed
    then have "readyState (current ?w2) \<noteq> 1" "prefix ts (message_queue ?w2)"
      and w: "wire ?w2 = wire w1"
      using Cons.prems(3) by (auto simp: quiet_def dest: prefix_order.trans)
    from Cons.IH[OF wf2 this(1,2)] w show ?thesis by (simp add: run_Cons)
  qed
qed

section \<open>What the calls of a closure do to the wire and the buffer\<close>

lemma ext_stays_closed:
  "ext a b \<Longrightarrow> readyState (current a) \<noteq> 1 \<Longrightarrow> readyState (current b) \<noteq> 1"
  by (simp add: ext_def)

lemma emitted_Nil:
  "wire w' = wire w \<Longrightarrow> message_queue w' = message_queue w \<Longrightarrow> emitted [] w w'"
  by (simp add: emitted_def)

lemma emitted_upd [simp]:
  "emitted ts (w\<lparr>env := e\<rparr>) w' = emitted ts w w'"
  "emitted ts (w\<lparr>delivered := d\<rparr>) w' = emitted ts w w'"
  by (simp_all add: emitted_def wire_def current_def)

lemma emitted_trans:
  assumes "emitted ts a b" "emitted us b c"
    and ab: "readyState (current a) \<noteq> 1 \<Longrightarrow> readyState (current b) \<noteq> 1"
    and bc: "readyState (current b) \<noteq> 1 \<Longrightarrow> readyState (current c) \<noteq> 1"
  shows "emitted (ts @ us) a c"
proof -
  from assms(1) obtain n where
    n: "wire b = wire a @ take n ts" "message_queue b = message_queue a @ drop n ts"
       "readyState (current a) \<noteq> 1 \<longrightarrow> n = 0" "drop n ts \<noteq> [] \<longrightarrow> readyState (current b) \<noteq> 1"
    unfolding emitted_def by blast
  from assms(2) obtain m where
    m: "wire c = wire b @ take m us" "message_queue c = message_queue b @ drop m us"
       "readyState (current b) \<noteq> 1 \<longrightarrow> m = 0" "drop m us \<noteq> [] \<longrightarrow> readyState (current c) \<noteq> 1"
    unfolding emitted_def by blast
  show ?thesis
  proof (cases "drop n ts = []")
    case True
    then have full: "take n ts = ts" by simp
    have "wire c = wire a @ take (length ts + m) (ts @ us)"
      using n(1) m(1) full by simp
    moreover have "message_queue c = message_queue a @ drop (length ts + m) (ts @ us)"
      using n(2) m(2) True by simp
    moreover have "readyState (current a) \<noteq> 1 \<longrightarrow> length ts + m = 0"
      using n(3) m(3) ab True by auto
    moreover have "drop (length ts + m) (ts @ us) \<noteq> [] \<longrightarrow> readyState (current c) \<noteq> 1"
      using m(4) by simp
    ultimately show ?thesis unfolding emitted_def by blast
  next
    case False
    then have less: "n < length ts" by simp
    from False n(4) have "readyState (current b) \<noteq> 1" by simp
    with m(3) bc have m0: "m = 0" and cc: "readyState (current c) \<noteq> 1" by simp_all
    have "wire c = wire a @ take n (ts @ us)"
      using n(1) m(1) m0 less by simp
    moreover have "message_queue c = message_queue a @ drop n (ts @ us)"
      using n(2) m(2) m0 less by simp
    ultimately show ?thesis unfolding emitted_def using n(3) cc by blast
  qed
qed

lemma wire_close: "ws w < length (sockets w) \<Longrightarrow> wire (close w) = wire w"
proof -
  assume lt: "ws w < length (sockets w)"
  have "map transmitted ((sockets w)[ws w := socket_close (current w)]) = map transmitted (sockets w)"
    using lt by (simp add: map_update socket_close_def current_def list_update_same_conv)
  then show ?thesis by (simp add: close_def wire_def)
qed

lemma send_emitted:
  assumes "newest w"
  shows "\<exists>w'. send d w = Normal w' \<and> emitted [JSON_stringify d] w w'"
proof (cases "readyState (current w) = 1")
  case True
  let ?w' = "w\<lparr>sockets := (sockets w)[ws w :=
                (current w)\<lparr>transmitted := transmitted (current w) @ [JSON_stringify d]\<rparr>]\<rparr>"
  have s: "send d w = Normal ?w'"
    using True by (simp add: send_def ws_send_def socket_send_def)
  have n': "newest ?w'" using assms by (simp add: newest_def)
  have "butlast (sockets ?w') = butlast (sockets w)"
    using assms by (simp add: newest_def butlast_list_update)
  moreover have "transmitted (current ?w') = transmitted (current w) @ [JSON_stringify d]"
    using assms by (simp add: newest_def current_def)
  ultimately have "wire ?w' = wire w @ [JSON_stringify d]"
    using wire_newest[OF n'] wire_newest[OF assms] by simp
  then have "emitted [JSON_stringify d] w ?w'"
    using True unfolding emitted_def by (intro exI[of _ 1]) simp
  with s show ?thesis by blast
next
  case False
  let ?w' = "w\<lparr>message_queue := message_queue w @ [JSON_stringify d]\<rparr>"
  have s: "send d w = Normal ?w'" using False by (simp add: send_def)
  have "emitted [JSON_stringify d] w ?w'"
    using False unfolding emitted_def by (intro exI[of _ 0]) (simp add: wire_def current_def)
  with s show ?thesis by blast
qed

lemma exec_emitted:
  assumes "newest w"
  shows "\<exists>w'. exec c w = Normal w' \<and> emitted (outgoing c) w w'"
proof -
  note s = send_emitted[OF assms]
  have cl: "emitted [] w (close w)"
  proof (rule emitted_Nil)
    show "wire (close w) = wire w" by (rule wire_close[OF newest_less[OF assms]])
    show "message_queue (close w) = message_queue w" by (simp add: close_def)
  qed
  have ad: "emitted [] w (addMsgHandler hdl w)" for hdl
    by (rule emitted_Nil) (simp_all add: addMsgHandler_def wire_def)
  have oc: "emitted [] w (onclose func w)" for func
    by (rule emitted_Nil) (simp_all add: onclose_def wire_def)
  show ?thesis
    using s cl ad oc
    by (cases c)
      (simp_all del: JSON_stringify.simps
        add: createRoom_def joinRoom_def ready_def activePlayerChoose_def
          playersChoose_def vote_def)
qed

lemma forEach_exec_emitted:
  assumes "newest w" "forEach cmds exec w = Normal w'"
  shows "emitted (concat (map outgoing cmds)) w w'"
  using assms
proof (induction cmds arbitrary: w)
  case Nil
  then show ?case by (simp add: emitted_Nil)
next
  case (Cons c cmds)
  from exec_emitted[OF Cons.prems(1), of c] exec_ext[OF Cons.prems(1), of c] obtain w1 where
    w1: "exec c w = Normal w1" "emitted (outgoing c) w w1" "ext w w1" by auto
  have n1: "newest w1" by (rule ext_newest[OF w1(3) Cons.prems(1)])
  from Cons.prems(2) w1(1) have r: "forEach cmds exec w1 = Normal w'" by simp
  from forEach_exec_ext[OF n1, of cmds] r have x: "ext w1 w'" by simp
  from emitted_trans[OF w1(2) Cons.IH[OF n1 r] ext_stays_closed[OF w1(3)] ext_stays_closed[OF x]]
  show ?case by simp
qed

text \<open>The dispatch of a decoded frame to the observers.\<close>

lemma dispatch_run:
  assumes "newest w"
  shows "delivered (state_of (forEach hs (invoke data) w)) =
           delivered w @ map (\<lambda>hdl. (fst hdl, data)) (called data hs (env w))
         \<and> env (state_of (forEach hs (invoke data) w)) = env_after data hs (env w)
         \<and> emitted (concat (map outgoing (calls_made data hs (env w))))
             w (state_of (forEach hs (invoke data) w))
         \<and> (readyState (current w) \<noteq> 1 \<longrightarrow>
              readyState (current (state_of (forEach hs (invoke data) w))) \<noteq> 1)"
  using assms
proof (induction hs arbitrary: w)
  case Nil
  then show ?case by (simp add: emitted_Nil)
next
  case (Cons hdl hs)
  obtain e cmds how where c: "snd hdl data (env w) = (e, cmds, how)"
    by (cases "snd hdl data (env w)")
  let ?wd = "w\<lparr>delivered := delivered w @ [(fst hdl, data)]\<rparr>"
  have nd: "newest ?wd" using Cons.prems by (simp add: newest_def)
  from c have cd: "snd hdl data (env ?wd) = (e, cmds, how)" by simp
  from call_run[where c = "snd hdl data", OF nd cd] obtain w1 where
    w1: "forEach cmds exec (?wd\<lparr>env := e\<rparr>) = Normal w1" "ext ?wd w1" "env w1 = e"
        "invoke data hdl w = (case how of Returns \<Rightarrow> Normal w1 | Throws \<Rightarrow> Thrown Uncaught w1)"
    unfolding invoke_def by blast
  have n1: "newest w1" using ext_newest[OF w1(2) nd] .
  have "newest (?wd\<lparr>env := e\<rparr>)" using nd by (simp add: newest_def)
  from forEach_exec_emitted[OF this w1(1)] have em1: "emitted (concat (map outgoing cmds)) w w1"
    by simp
  have d1: "delivered w1 = delivered w @ [(fst hdl, data)]"
    using w1(2) by (simp add: ext_def)
  have cl1: "readyState (current w) \<noteq> 1 \<Longrightarrow> readyState (current w1) \<noteq> 1"
    using ext_stays_closed[OF w1(2)] by (simp add: current_def)
  show ?case
  proof (cases how)
    case Throws
    with w1 c em1 d1 cl1 show ?thesis by simp
  next
    case Returns
    let ?w2 = "state_of (forEach hs (invoke data) w1)"
    have run: "state_of (forEach (hdl # hs) (invoke data) w) = ?w2"
      using Returns w1(4) by simp
    note ih = Cons.IH[OF n1]
    from ih have em2: "emitted (concat (map outgoing (calls_made data hs e))) w1 ?w2"
      and cl2: "readyState (current w1) \<noteq> 1 \<Longrightarrow> readyState (current ?w2) \<noteq> 1"
      using w1(3) by simp_all
    from emitted_trans[OF em1 em2 cl1 cl2]
    have "emitted (concat (map outgoing (calls_made data (hdl # hs) (env w)))) w ?w2"
      using c Returns by simp
    moreover have "delivered ?w2 =
        delivered w @ map (\<lambda>hdl. (fst hdl, data)) (called data (hdl # hs) (env w))"
      using ih d1 w1(3) c Returns by simp
    moreover have "env ?w2 = env_after data (hdl # hs) (env w)"
      using ih w1(3) c Returns by simp
    ultimately show ?thesis unfolding run using cl1 cl2 by blast
  qed
qed

lemma called_prefix: "prefix (called data hs e) hs"
proof (induction hs arbitrary: e)
  case Nil
  then show ?case by simp
next
  case (Cons hdl hs)
  then show ?case
    by (cases "snd hdl data e") (auto split: outcome.splits)
qed

lemma called_all:
  "(\<forall>hdl \<in> set hs. \<forall>e. snd (snd (snd hdl data e)) = Returns) \<Longrightarrow> called data hs e = hs"
proof (induction hs arbitrary: e)
  case Nil
  then show ?case by simp
next
  case (Cons hdl hs)
  obtain e' cmds how where c: "snd hdl data e = (e', cmds, how)" by (cases "snd hdl data e")
  with Cons.prems have "how = Returns" by (metis list.set_intros(1) snd_conv)
  moreover from Cons.prems have "\<forall>hdl \<in> set hs. \<forall>e. snd (snd (snd hdl data e)) = Returns"
    by simp
  from Cons.IH[OF this] have "called data hs e' = hs" .
  ultimately show ?case using c by simp
qed

section \<open>Evaluating the model\<close>

lemmas examples = ready_msg_def join_msg_def vote_msg_def no_frames_def two_observers_def
  offline_vote_def

lemmas v1_eval' =
  GameServer_def setupSocket_def current_def new_WebSocket_def set_readyState_def call_def
  close_def socket_close_def ws_onclose_def ws_onopen_def ws_onmessage_def invoke_def
  ws_send_def socket_send_def run_def step.simps wire_def wf_def addMsgHandler_def onclose_def
  createRoom_def joinRoom_def ready_def activePlayerChoose_def playersChoose_def vote_def
  decoder_of_def page_onclose_def page_onDestroy_def ann_def

lemmas v1_eval =
  GameServer_def setupSocket_def current_def new_WebSocket_def set_readyState_def call_def
  close_def socket_close_def send_def ws_onclose_def ws_onopen_def ws_onmessage_def invoke_def
  ws_send_def socket_send_def run_def step.simps wire_def wf_def addMsgHandler_def onclose_def
  createRoom_def joinRoom_def ready_def activePlayerChoose_def playersChoose_def vote_def
  decoder_of_def page_onclose_def page_onDestroy_def ann_def


text \<open>The frame of the rejoin intent, character by character.\<close>

lemma quote_Ann: "quote ''Ann'' = [CHR 0x22, CHR ''A'', CHR ''n'', CHR ''n'', CHR 0x22]"
  by (simp add: quote_def quote_char_def)

lemma join_msg_text:
  "JSON_stringify join_msg =
     ''{'' @ quote ''JoinRoom'' @ '':{'' @ quote ''name'' @ '':'' @ quote ''Ann'' @ '',''
       @ quote ''room_id'' @ '':'' @ quote ''AB12'' @ ''}}''"
  by (simp add: join_msg_def)

lemma quote_escapes:
  "quote [CHR 0x22, CHR 0x5C, CHR 0x0A, CHR 0x01] =
     [CHR 0x22, CHR 0x5C, CHR 0x22, CHR 0x5C, CHR 0x5C, CHR 0x5C, CHR ''n'',
      CHR 0x5C, CHR ''u'', CHR ''0'', CHR ''0'', CHR ''0'', CHR ''1'', CHR 0x22]"
  by (simp add: quote_def quote_char_def hex_digit_def)

section \<open>Properties of the session client\<close>

text \<open>
  C3: \<open>send\<close> serialises the intent and never throws. If the current socket is OPEN the
  text is transmitted at once and the buffer is left alone; in every other state the
  text is appended to the tail of the buffer and no socket transmits anything.
\<close>

theorem send_transmits_iff_open:
  "send d w =
     Normal (if readyState (current w) = 1
             then w\<lparr>sockets := (sockets w)[ws w :=
                      (current w)\<lparr>transmitted := transmitted (current w) @ [JSON_stringify d]\<rparr>]\<rparr>
             else w\<lparr>message_queue := message_queue w @ [JSON_stringify d]\<rparr>)"
  by (simp add: send_def ws_send_def socket_send_def)

theorem send_transmits_iff_open_witness:
  "message_queue (state_of (send ready_msg (GameServer ()))) = [JSON_stringify ready_msg]
   \<and> wire (state_of (send ready_msg (GameServer ()))) = []
   \<and> message_queue (state_of (send ready_msg (step no_frames (Open 0) (GameServer ())))) = []
   \<and> wire (state_of (send ready_msg (step no_frames (Open 0) (GameServer ()))))
       = [JSON_stringify ready_msg]"
  by (simp add: send_transmits_iff_open v1_eval')

text \<open>
  C8: each typed helper is one call of \<open>send\<close> with an object that has a single
  top-level key: \<open>CreateRoom{name}\<close>, \<open>JoinRoom{name, room_id}\<close>, \<open>Ready{}\<close>,
  \<open>ActivePlayerChooseCard{card, description}\<close>, \<open>PlayerChooseCard{card}\<close> and
  \<open>Vote{card}\<close>.
\<close>

theorem helpers_delegate_to_send:
  "createRoom name w = send (JObj [(''CreateRoom'', JObj [(''name'', JStr name)])]) w
   \<and> joinRoom room_id name w =
       send (JObj [(''JoinRoom'', JObj [(''name'', JStr name), (''room_id'', JStr room_id)])]) w
   \<and> ready w = send (JObj [(''Ready'', JObj [])]) w
   \<and> activePlayerChoose card' description w =
       send (JObj [(''ActivePlayerChooseCard'',
                    JObj [(''card'', JStr card'), (''description'', JStr description)])]) w
   \<and> playersChoose card' w = send (JObj [(''PlayerChooseCard'', JObj [(''card'', JStr card')])]) w
   \<and> vote card' w = send (JObj [(''Vote'', JObj [(''card'', JStr card')])]) w"
  by (simp add: createRoom_def joinRoom_def ready_def activePlayerChoose_def playersChoose_def
      vote_def)

theorem helpers_delegate_to_send_witness:
  "message_queue (state_of (joinRoom ''AB12'' ''Ann'' (GameServer ()))) = [JSON_stringify join_msg]
   \<and> message_queue (state_of (vote ''c1'' (GameServer ()))) = [JSON_stringify vote_msg]"
  using helpers_delegate_to_send[of "''Ann''" "GameServer ()" "''AB12''" "''c1''" "[]"]
  by (simp add: send_def GameServer_def setupSocket_def current_def new_WebSocket_def examples)

text \<open>
  C2: when a CONNECTING socket opens, the whole buffer is transmitted on it in buffer
  order and the buffer is emptied. Intents \<open>ds\<close> sent while the current socket is not
  OPEN are in the buffer in call order, behind what was buffered before, when the next
  socket opens, whatever happens in between (\<open>evs\<close>: close events, code of the page);
  until then nothing is transmitted.
\<close>

theorem open_flushes_buffer_in_order:
  assumes "wf w0" "readyState (current w0) \<noteq> 1" "\<forall>k. Open k \<notin> set evs"
    and "w = run P evs (state_of (forEach ds send w0))"
    and "h < length (sockets w)" "readyState (sockets w ! h) = 0"
  shows "wire (step P (Open h) w) = wire w @ message_queue w
         \<and> transmitted (sockets (step P (Open h) w) ! h) = message_queue w
         \<and> message_queue (step P (Open h) w) = []
         \<and> prefix (message_queue w0 @ map JSON_stringify ds) (message_queue w)
         \<and> wire w = wire w0"
proof -
  let ?w1 = "w0\<lparr>message_queue := message_queue w0 @ map JSON_stringify ds\<rparr>"
  have w1: "state_of (forEach ds send w0) = ?w1"
    by (simp add: sends_buffer[OF assms(2)])
  have wf1: "wf ?w1" using assms(1) by (simp add: wf_upd_queue)
  have "readyState (current ?w1) \<noteq> 1" using assms(2) by (simp add: current_def)
  from run_quiet[OF wf1 this assms(3), of P]
  have q: "prefix (message_queue w0 @ map JSON_stringify ds) (message_queue w)" "wire w = wire w0"
    unfolding assms(4) w1 by (simp_all add: quiet_def wire_def)
  have "wf w" unfolding assms(4) w1 by (rule run_wf[OF wf1])
  from opened_facts[OF this assms(5,6), of P] q show ?thesis by simp
qed

theorem open_flushes_buffer_in_order_witness:
  "wf (GameServer ()) \<and> readyState (current (GameServer ())) \<noteq> 1
   \<and> (\<forall>k. Open k \<notin> set [Closed 0 :: unit event])
   \<and> 1 < length (sockets failed_first_attempt)
   \<and> readyState (sockets failed_first_attempt ! 1) = 0
   \<and> wire (step no_frames (Open 1) failed_first_attempt)
       = [JSON_stringify join_msg, JSON_stringify ready_msg]
   \<and> message_queue (step no_frames (Open 1) failed_first_attempt) = []"
proof -
  have h: "wf (GameServer ())" "readyState (current (GameServer ())) \<noteq> 1"
    "\<forall>k. Open k \<notin> set [Closed 0 :: unit event]"
    "failed_first_attempt =
       run no_frames [Closed 0] (state_of (forEach [join_msg, ready_msg] send (GameServer ())))"
    "1 < length (sockets failed_first_attempt)"
    "readyState (sockets failed_first_attempt ! 1) = 0"
    by (simp_all add: failed_first_attempt_def examples v1_eval send_def)
  have v: "wire failed_first_attempt = []"
    "message_queue failed_first_attempt = [JSON_stringify join_msg, JSON_stringify ready_msg]"
    by (simp_all add: failed_first_attempt_def examples v1_eval send_def)
  from open_flushes_buffer_in_order[OF h] h v show ?thesis by simp
qed

text \<open>
  C4: a close event on a socket that is not yet CLOSED makes the handler construct a new
  socket, make it current and install the handlers, without any condition on the state
  or on the buffer. It then calls the callback that \<open>onclose\<close> stored last, once: the
  page's variables and the buffer afterwards are those one run of the callback leaves,
  and at that call the new socket is CONNECTING. In every run from the constructor the
  callback has been called once for each socket constructed after the first.
\<close>

theorem close_event_replaces_and_notifies:
  assumes "wf w" "h < length (sockets w)" "readyState (sockets w ! h) \<noteq> 3"
    and "onclosehandler w (env w) = (e', cmds, how)"
  shows "length (sockets (step P (Closed h) w)) = Suc (length (sockets w))
         \<and> ws (step P (Closed h) w) = length (sockets w)
         \<and> installed (current (step P (Closed h) w))
         \<and> readyState (sockets (step P (Closed h) w) ! h) = 3
         \<and> notified (step P (Closed h) w) = notified w @ [(length (sockets w), 0)]
         \<and> step P (Closed h) w = state_of (call (onclosehandler w) (replaced w))
         \<and> env (step P (Closed h) w) = e'
         \<and> message_queue (step P (Closed h) w) = message_queue w @ concat (map outgoing cmds)
         \<and> onclosehandler (onclose func w) = func
         \<and> length (sockets (run P evs (GameServer e))) =
             Suc (length (notified (run P evs (GameServer e))))"
proof -
  let ?w' = "step P (Closed h) w"
  note x = step_Closed_ext[OF assms(1-3), of P] and r = replaced_facts[OF assms(1)]
  have h: "h = ws w" by (rule step_Closed(1)[OF assms(1-3)])
  have "butlast (sockets ?w') = butlast (sockets (replaced w))"
    using x by (simp add: ext_def)
  then have "butlast (sockets ?w') = (sockets w)[ws w := (current w)\<lparr>readyState := 3\<rparr>]"
    by (simp add: replaced_def)
  then have "butlast (sockets ?w') ! h = (current w)\<lparr>readyState := 3\<rparr>"
    using assms(2) h by simp
  moreover have "length (sockets ?w') = Suc (length (sockets w))"
    using x r by (simp add: ext_def)
  ultimately have closed: "readyState (sockets ?w' ! h) = 3"
    using assms(2) by (simp add: nth_butlast)
  have "wf (replaced w)" by (rule r)
  then have "installed (current (replaced w))" by (simp add: wf_def)
  then have inst: "installed (current ?w')" using x by (simp add: ext_def)
  have n: "notified ?w' = notified w @ [(length (sockets w), 0)]"
    using x by (simp add: ext_def replaced_def)
  have eq: "?w' = state_of (call (onclosehandler w) (replaced w))"
    by (rule step_Closed(2)[OF assms(1-3)])
  have c: "onclosehandler w (env (replaced w)) = (e', cmds, how)"
    using assms(4) r by simp
  from call_run[where c = "onclosehandler w", OF wf_newest[OF r(1)] c] obtain w1 where
    w1: "forEach cmds exec ((replaced w)\<lparr>env := e'\<rparr>) = Normal w1" "env w1 = e'"
        "call (onclosehandler w) (replaced w) =
           (case how of Returns \<Rightarrow> Normal w1 | Throws \<Rightarrow> Thrown Uncaught w1)"
    by blast
  have st: "?w' = w1" unfolding eq w1(3) by (rule state_of_outcome)
  have conn: "readyState (current ((replaced w)\<lparr>env := e'\<rparr>)) \<noteq> 1"
    "ws ((replaced w)\<lparr>env := e'\<rparr>) < length (sockets ((replaced w)\<lparr>env := e'\<rparr>))"
    using r by (simp_all add: current_def)
  from forEach_exec_buffers[OF conn, of cmds] w1(1)
  have q: "message_queue ?w' = message_queue w @ concat (map outgoing cmds)"
    using r st by simp
  have ev: "env ?w' = e'" using st w1(2) by simp
  have "grows (GameServer e) (run P evs (GameServer e))"
    by (rule run_grows[OF wf_GameServer])
  then have "length (sockets (run P evs (GameServer e))) - length (notified (run P evs (GameServer e))) = 1"
    by (simp add: grows_def GameServer_def setupSocket_def)
  then have cnt: "length (sockets (run P evs (GameServer e))) =
             Suc (length (notified (run P evs (GameServer e))))"
    by simp
  have st': "onclosehandler (onclose func w) = func" by (simp add: onclose_def)
  from x r closed inst n cnt eq q ev st' show ?thesis by (simp add: ext_def)
qed

theorem close_event_replaces_and_notifies_witness:
  "wf offline_vote \<and> 0 < length (sockets offline_vote)
   \<and> readyState (sockets offline_vote ! 0) \<noteq> 3
   \<and> onclosehandler offline_vote (env offline_vote) = (ann, [JoinRoom ''AB12'' ''Ann''], Returns)
   \<and> message_queue offline_vote = [JSON_stringify vote_msg]
   \<and> length (sockets (step no_frames (Closed 0) offline_vote)) = 2
   \<and> ws (step no_frames (Closed 0) offline_vote) = 1
   \<and> readyState (sockets (step no_frames (Closed 0) offline_vote) ! 0) = 3
   \<and> notified (step no_frames (Closed 0) offline_vote) = [(1, 0)]
   \<and> env (step no_frames (Closed 0) offline_vote) = ann
   \<and> message_queue (step no_frames (Closed 0) offline_vote)
       = [JSON_stringify vote_msg, JSON_stringify join_msg]
   \<and> length (sockets (run no_frames [Closed 0, Open 1, Closed 1] (GameServer ann))) = 3
   \<and> length (notified (run no_frames [Closed 0, Open 1, Closed 1] (GameServer ann))) = 2"
proof -
  have h: "wf offline_vote" "0 < length (sockets offline_vote)"
    "readyState (sockets offline_vote ! 0) \<noteq> 3"
    "onclosehandler offline_vote (env offline_vote) = (ann, [JoinRoom ''AB12'' ''Ann''], Returns)"
    by (simp_all add: examples v1_eval)
  have v: "message_queue offline_vote = [JSON_stringify vote_msg]"
    "length (sockets offline_vote) = 1" "notified offline_vote = []"
    "length (sockets (run no_frames [Closed 0, Open 1, Closed 1] (GameServer ann))) = 3"
    by (simp_all add: examples v1_eval)
  note t = close_event_replaces_and_notifies[OF h,
      of no_frames page_onclose "[Closed 0, Open 1, Closed 1]" ann]
  let ?w' = "step no_frames (Closed 0) offline_vote"
  have c: "length (sockets ?w') = Suc (length (sockets offline_vote))"
    "ws ?w' = length (sockets offline_vote)" "readyState (sockets ?w' ! 0) = 3"
    "notified ?w' = notified offline_vote @ [(length (sockets offline_vote), 0)]"
    "env ?w' = ann"
    "message_queue ?w' =
       message_queue offline_vote @ concat (map outgoing [JoinRoom ''AB12'' ''Ann'' :: page cmd])"
    "length (sockets (run no_frames [Closed 0, Open 1, Closed 1] (GameServer ann))) =
       Suc (length (notified (run no_frames [Closed 0, Open 1, Closed 1] (GameServer ann))))"
    by (insert t, (elim conjE, assumption)+)
  have "JSON_stringify join_msg
         = JSON_stringify (JObj [(''JoinRoom'', JObj [(''name'', JStr ''Ann''), (''room_id'', JStr ''AB12'')])])"
    by (simp add: join_msg_def)
  with c h v show ?thesis by (simp del: JSON_stringify.simps)
qed

text \<open>
  A frame does not reach every observer when one of them throws. Observer 0 throws,
  the \<open>forEach\<close> of the message handler ends there, and observer 1, registered after
  it, is not called for this frame: the delivery log has one entry and the variable
  that observer 1 would set is unchanged.
\<close>

theorem second_observer_misses_frame:
  "map fst (onmessage_handler first_observer_throws) = [0, 1]
   \<and> readyState (sockets first_observer_throws ! 0) = 1
   \<and> decoder_of [room_state] (JSON_stringify room_state) = Some room_state
   \<and> delivered (step (decoder_of [room_state]) (Message 0 (JSON_stringify room_state))
                 first_observer_throws) = [(0, room_state)]
   \<and> env (step (decoder_of [room_state]) (Message 0 (JSON_stringify room_state))
                 first_observer_throws) = False"
  by (simp add: first_observer_throws_def v1_eval)

text \<open>
  C5, as the code has it: a frame that arrives on the OPEN socket and decodes to \<open>data\<close>
  is handed to the registered observers in registration order, once for each
  registration, up to and including the first observer that throws; the observers
  registered after that one do not receive the frame. If no observer throws, all of
  them receive it. Each observer that is called runs: the page's variables afterwards
  are those the called observers leave one after the other, and the texts of the method
  calls they make have been transmitted or, once the socket is no longer OPEN, appended
  to the buffer, in order. Registering appends to the list, also when the observer is
  in it already, and no turn of the event loop removes an observer.
\<close>

theorem observers_called_in_order_until_throw:
  assumes "wf w" "h < length (sockets w)" "readyState (sockets w ! h) = 1"
    and "JSON_parse frame = Some data"
    and "w' = step JSON_parse (Message h frame) w"
    and "seen = called data (onmessage_handler w) (env w)"
  shows "prefix seen (onmessage_handler w)
         \<and> ((\<forall>hdl \<in> set (onmessage_handler w). \<forall>e. snd (snd (snd hdl data e)) = Returns)
              \<longrightarrow> seen = onmessage_handler w)
         \<and> delivered w' = delivered w @ map (\<lambda>hdl. (fst hdl, data)) seen
         \<and> env w' = env_after data (onmessage_handler w) (env w)
         \<and> (\<exists>n. wire w' =
                   wire w @ take n (concat (map outgoing
                                      (calls_made data (onmessage_handler w) (env w))))
                \<and> message_queue w' =
                   message_queue w @ drop n (concat (map outgoing
                                      (calls_made data (onmessage_handler w) (env w)))))
         \<and> onmessage_handler (addMsgHandler func w) = onmessage_handler w @ [func]
         \<and> prefix (onmessage_handler w) (onmessage_handler (run JSON_parse evs w))"
proof -
  have eq: "w' = state_of (forEach (onmessage_handler w) (invoke data) w)"
    unfolding assms(5)
    by (rule step_Message_ext(1)[where P=JSON_parse and frame=frame, OF assms(1-4)])
  note d = dispatch_run[OF wf_newest[OF assms(1)], of "onmessage_handler w" data, folded eq]
  from d have "emitted (concat (map outgoing (calls_made data (onmessage_handler w) (env w)))) w w'"
    by simp
  then have em: "\<exists>n. wire w' =
                   wire w @ take n (concat (map outgoing
                                      (calls_made data (onmessage_handler w) (env w))))
                \<and> message_queue w' =
                   message_queue w @ drop n (concat (map outgoing
                                      (calls_made data (onmessage_handler w) (env w))))"
    unfolding emitted_def by blast
  have p: "prefix (onmessage_handler w) (onmessage_handler (run JSON_parse evs w))"
    using run_grows[OF assms(1)] by (simp add: grows_def)
  have a: "onmessage_handler (addMsgHandler func w) = onmessage_handler w @ [func]"
    by (simp add: addMsgHandler_def)
  from d em p a called_prefix[of data "onmessage_handler w" "env w"]
    called_all[of "onmessage_handler w" data "env w"]
  show ?thesis unfolding assms(6) by blast
qed

theorem observers_called_in_order_until_throw_witness:
  "wf voting_observers \<and> 0 < length (sockets voting_observers)
   \<and> readyState (sockets voting_observers ! 0) = 1
   \<and> decoder_of [room_state] (JSON_stringify room_state) = Some room_state
   \<and> map fst (onmessage_handler voting_observers) = [0, 1]
   \<and> list_all (\<lambda>hdl. \<forall>e. snd (snd (snd hdl room_state e)) = Returns)
         (onmessage_handler voting_observers)
   \<and> delivered (step (decoder_of [room_state]) (Message 0 (JSON_stringify room_state))
                 voting_observers) = [(0, room_state), (1, room_state)]
   \<and> env (step (decoder_of [room_state]) (Message 0 (JSON_stringify room_state))
                 voting_observers) = True
   \<and> wire (step (decoder_of [room_state]) (Message 0 (JSON_stringify room_state))
                 voting_observers) = [JSON_stringify vote_msg]"
proof -
  let ?w' = "step (decoder_of [room_state]) (Message 0 (JSON_stringify room_state))
               voting_observers"
  have h: "wf voting_observers" "0 < length (sockets voting_observers)"
    "readyState (sockets voting_observers ! 0) = 1"
    "decoder_of [room_state] (JSON_stringify room_state) = Some room_state"
    by (simp_all add: voting_observers_def v1_eval)
  have v: "delivered voting_observers = []" "env voting_observers = False"
    "map fst (onmessage_handler voting_observers) = [0, 1]"
    "\<forall>hdl \<in> set (onmessage_handler voting_observers).
         \<forall>e. snd (snd (snd hdl room_state e)) = Returns"
    "map (\<lambda>hdl. (fst hdl, room_state)) (onmessage_handler voting_observers)
       = [(0, room_state), (1, room_state)]"
    "env_after room_state (onmessage_handler voting_observers) False = True"
    by (simp_all add: voting_observers_def v1_eval)
  have w: "wire ?w' = [JSON_stringify vote_msg]"
    by (simp add: voting_observers_def v1_eval send_def vote_msg_def)
  note t = observers_called_in_order_until_throw[where JSON_parse = "decoder_of [room_state]"
      and frame = "JSON_stringify room_state" and func = "(2, \<lambda>d e. (e, [], Returns))"
      and evs = "[]", OF h refl refl]
  from t v have "delivered ?w' = [(0, room_state), (1, room_state)]" "env ?w' = True"
    by simp_all
  with h v w show ?thesis by (simp add: list_all_iff)
qed



text \<open>
  C7: the page sends the object \<open>f e\<close> it holds in its variables while the socket is not
  OPEN. The buffer receives the text of the object as it is at the call. Whatever
  happens afterwards (\<open>evs\<close> may change the variables of the page in any way), that text
  is either still in the buffer behind the older messages, with nothing transmitted, or
  it has been transmitted, after the older messages. Changing the variables of the
  page before a socket opens does not change what the flush transmits.
\<close>

theorem buffered_text_fixed_at_send:
  assumes "wf w" "readyState (current w) \<noteq> 1"
    and "w1 = step P (Page (\<lambda>e. (e, [Send (f e)], Returns))) w"
  shows "message_queue w1 = message_queue w @ [JSON_stringify (f (env w))]
         \<and> ((prefix (message_queue w @ [JSON_stringify (f (env w))]) (message_queue (run P evs w1))
               \<and> wire (run P evs w1) = wire w)
             \<or> prefix (wire w @ message_queue w @ [JSON_stringify (f (env w))])
                  (wire (run P evs w1)))
         \<and> wire (step P (Open h) (w1\<lparr>env := e'\<rparr>)) = wire (step P (Open h) w1)"
proof -
  have w1: "w1 = w\<lparr>message_queue := message_queue w @ [JSON_stringify (f (env w))]\<rparr>"
    using assms(2) by (simp add: assms(3) step_Page call_def send_buffers)
  have wf1: "wf w1" using assms(1) by (simp add: w1 wf_upd_queue)
  have no: "readyState (current w1) \<noteq> 1" using assms(2) by (simp add: w1 current_def)
  have wire1: "wire w1 = wire w" by (simp add: w1 wire_def)
  from buffered_then_sent[OF wf1 no, of "message_queue w1" P evs]
  have run: "(prefix (message_queue w @ [JSON_stringify (f (env w))]) (message_queue (run P evs w1))
               \<and> wire (run P evs w1) = wire w)
             \<or> prefix (wire w @ message_queue w @ [JSON_stringify (f (env w))])
                  (wire (run P evs w1))"
    unfolding wire1 by (auto simp: w1)
  have "wire (step P (Open h) (w1\<lparr>env := e'\<rparr>)) = wire (step P (Open h) w1)"
  proof (cases "h < length (sockets w1) \<and> readyState (sockets w1 ! h) = 0")
    case True
    have "wf (w1\<lparr>env := e'\<rparr>)" using wf1 by (simp add: wf_upd_env)
    from opened_facts(2)[OF this, of h P] opened_facts(2)[OF wf1, of h P] True
    show ?thesis by (simp add: wire_def)
  next
    case False
    then show ?thesis
      using step_Open_disabled[of h w1 P] step_Open_disabled[of h "w1\<lparr>env := e'\<rparr>" P]
      by (simp add: wire_def)
  qed
  with run w1 show ?thesis by simp
qed

theorem buffered_text_fixed_at_send_witness:
  "wf (GameServer vote_msg) \<and> readyState (current (GameServer vote_msg)) \<noteq> 1
   \<and> message_queue object_sent = [JSON_stringify vote_msg]
   \<and> env (run no_frames [Page (\<lambda>e. (JNull, [], Returns)), Open 0] object_sent) = JNull
   \<and> wire (run no_frames [Page (\<lambda>e. (JNull, [], Returns)), Open 0] object_sent)
       = [JSON_stringify vote_msg]"
proof -
  have h: "wf (GameServer vote_msg)" "readyState (current (GameServer vote_msg)) \<noteq> 1"
    "object_sent = step no_frames (Page (\<lambda>e. (e, [Send e], Returns))) (GameServer vote_msg)"
    by (simp_all add: object_sent_def examples v1_eval)
  have v: "env (run no_frames [Page (\<lambda>e. (JNull, [], Returns)), Open 0] object_sent) = JNull"
    "wire (run no_frames [Page (\<lambda>e. (JNull, [], Returns)), Open 0] object_sent)
       = [JSON_stringify vote_msg]"
    by (simp_all add: object_sent_def examples v1_eval send_def)
  from buffered_text_fixed_at_send[OF h, of "[Page (\<lambda>e. (JNull, [], Returns)), Open 0]" 0 JNull] h v
  show ?thesis by (simp add: GameServer_def setupSocket_def)
qed

text \<open>
  C9: the close handler calls the callback while the new socket is CONNECTING, so the
  texts of the calls the callback makes (\<open>cmds\<close>) are appended behind the messages that
  were in the buffer at the close event. When the next socket opens, the buffer is
  transmitted in this order.
\<close>

theorem callback_sends_join_the_tail:
  assumes "wf w" "h < length (sockets w)" "readyState (sockets w ! h) \<noteq> 3"
    and "onclosehandler w (env w) = (e', cmds, how)"
    and "w1 = step P (Closed h) w"
    and "\<forall>k. Open k \<notin> set evs" "w2 = run P evs w1"
    and "k < length (sockets w2)" "readyState (sockets w2 ! k) = 0"
  shows "notified w1 = notified w @ [(ws w1, 0)]
         \<and> message_queue w1 = message_queue w @ concat (map outgoing cmds)
         \<and> prefix (message_queue w1) (message_queue w2)
         \<and> transmitted (sockets (step P (Open k) w2) ! k) = message_queue w2
         \<and> wire (step P (Open k) w2) = wire w @ message_queue w2"
proof -
  note r = replaced_facts[OF assms(1)]
  let ?r = "(replaced w)\<lparr>env := e'\<rparr>"
  have conn: "readyState (current ?r) \<noteq> 1" "ws ?r < length (sockets ?r)"
    using r by (simp_all add: current_def)
  from forEach_exec_buffers[OF conn, of cmds] obtain w' where
    w': "forEach cmds exec ?r = Normal w'"
        "message_queue w' = message_queue ?r @ concat (map outgoing cmds)" by blast
  have "w1 = state_of (call (onclosehandler w) (replaced w))"
    unfolding assms(5) by (rule step_Closed(2)[OF assms(1-3)])
  then have "w1 = w'" using assms(4) r w' by (simp add: call_def state_of_outcome)
  then have q1: "message_queue w1 = message_queue w @ concat (map outgoing cmds)"
    using w' r by simp
  note x = step_Closed_ext[OF assms(1-3), of P, folded assms(5)]
  have n: "notified w1 = notified w @ [(ws w1, 0)]"
    using x r by (simp add: ext_def replaced_def)
  have wf1: "wf w1" unfolding assms(5) by (rule step_wf[OF assms(1)])
  have no: "readyState (current w1) \<noteq> 1" using x r by (simp add: ext_def)
  have wire1: "wire w1 = wire w"
    using ext_wire(2)[OF x wf_newest[OF r(1)]] r by simp
  from run_quiet[OF wf1 no assms(6), of P]
  have q2: "prefix (message_queue w1) (message_queue w2)" "wire w2 = wire w"
    unfolding assms(7) using wire1 by (simp_all add: quiet_def)
  have "wf w2" unfolding assms(7) by (rule run_wf[OF wf1])
  from opened_facts[OF this assms(8,9), of P] n q1 q2 show ?thesis by simp
qed

theorem callback_sends_join_the_tail_witness:
  "wf offline_vote \<and> 0 < length (sockets offline_vote)
   \<and> readyState (sockets offline_vote ! 0) \<noteq> 3
   \<and> onclosehandler offline_vote (env offline_vote) = (ann, [JoinRoom ''AB12'' ''Ann''], Returns)
   \<and> (\<forall>k. Open k \<notin> set ([] :: page event list))
   \<and> 1 < length (sockets (step no_frames (Closed 0) offline_vote))
   \<and> readyState (sockets (step no_frames (Closed 0) offline_vote) ! 1) = 0
   \<and> message_queue (step no_frames (Closed 0) offline_vote)
       = [JSON_stringify vote_msg, JSON_stringify join_msg]
   \<and> transmitted (sockets (step no_frames (Open 1) (step no_frames (Closed 0) offline_vote)) ! 1)
       = [JSON_stringify vote_msg, JSON_stringify join_msg]"
proof -
  let ?w1 = "step no_frames (Closed 0) offline_vote"
  have h: "wf offline_vote" "0 < length (sockets offline_vote)"
    "readyState (sockets offline_vote ! 0) \<noteq> 3"
    "onclosehandler offline_vote (env offline_vote) = (ann, [JoinRoom ''AB12'' ''Ann''], Returns)"
    "?w1 = step no_frames (Closed 0) offline_vote"
    "\<forall>k. Open k \<notin> set ([] :: page event list)"
    "?w1 = run no_frames [] ?w1"
    "1 < length (sockets ?w1)" "readyState (sockets ?w1 ! 1) = 0"
    by (simp_all add: examples v1_eval send_def)
  have v: "message_queue offline_vote = [JSON_stringify vote_msg]"
    by (simp add: examples v1_eval send_def)
  from callback_sends_join_the_tail[OF h] h v show ?thesis
    by (simp add: examples)
qed

text \<open>
  C10: a frame that \<open>JSON.parse\<close> rejects makes the message handler throw before it has
  changed anything: no observer is called and the state after the turn is the state
  before it, sockets included.
\<close>

theorem malformed_frame_changes_nothing:
  assumes "JSON_parse frame = None"
  shows "ws_onmessage JSON_parse frame w = Thrown SyntaxError w
         \<and> step JSON_parse (Message h frame) w = w"
  using assms by (simp add: ws_onmessage_def step.simps)

theorem malformed_frame_changes_nothing_witness:
  "decoder_of [room_state] ''not json'' = None
   \<and> step (decoder_of [room_state]) (Message 0 ''not json'') two_observers = two_observers"
proof -
  have h: "decoder_of [room_state] ''not json'' = None"
    by (simp add: decoder_of_def room_state_def)
  from malformed_frame_changes_nothing[where JSON_parse = "decoder_of [room_state]"
      and frame = "''not json''" and w = two_observers and h = 0, OF h] h
  show ?thesis by simp
qed

text \<open>
  A message sent after \<open>close()\<close> can reach the network. The page of the game joins a
  room, its socket opens, \<open>onDestroy\<close> calls \<open>close()\<close>, and \<open>ready()\<close> is called
  afterwards: the message is buffered. The close event makes the client construct the
  next socket, and when that socket opens the message is transmitted.
\<close>

theorem send_after_close_reaches_network:
  "message_queue
     (run (decoder_of [])
        [Page (\<lambda>e. (e, [JoinRoom (roomCode e) (player e), OnClose page_onclose], Returns)), Open 0,
         Page page_onDestroy, Page (\<lambda>e. (e, [Ready], Returns))]
        (GameServer ann)) = [JSON_stringify (JObj [(''Ready'', JObj [])])]
   \<and> wire
     (run (decoder_of [])
        [Page (\<lambda>e. (e, [JoinRoom (roomCode e) (player e), OnClose page_onclose], Returns)), Open 0,
         Page page_onDestroy, Page (\<lambda>e. (e, [Ready], Returns)), Closed 0, Open 1]
        (GameServer ann)) =
      [JSON_stringify (JObj [(''JoinRoom'', JObj [(''name'', JStr ''Ann''), (''room_id'', JStr ''AB12'')])]),
       JSON_stringify (JObj [(''Ready'', JObj [])])]"
  by (simp add: v1_eval)

text \<open>
  C1, as the code has it: after \<open>close()\<close> the current socket is not OPEN, so a message
  sent afterwards is appended to the buffer and nothing is transmitted, and nothing is
  transmitted for as long as no socket opens. The close handler still replaces the
  socket at the close event; when a socket opens, the buffer, with the message in it,
  is transmitted in order.
\<close>

theorem sends_after_close_flush_on_reopen:
  assumes "wf w" "w2 = state_of (send d (close w))"
    and "\<forall>k. Open k \<notin> set evs" "w3 = run P evs w2"
    and "h < length (sockets w3)" "readyState (sockets w3 ! h) = 0"
  shows "message_queue w2 = message_queue w @ [JSON_stringify d]
         \<and> wire w2 = wire w \<and> wire w3 = wire w
         \<and> prefix (message_queue w @ [JSON_stringify d]) (message_queue w3)
         \<and> wire (step P (Open h) w3) = wire w @ message_queue w3"
proof -
  have c: "ext w (close w)" by (rule close_ext[OF wf_newest[OF assms(1)]])
  have wfc: "wf (close w)" by (rule ext_wf[OF assms(1) c])
  have lt: "ws w < length (sockets w)" using assms(1) by (simp add: wf_def)
  have no: "readyState (current (close w)) \<noteq> 1"
    using lt by (simp add: close_def socket_close_def current_def)
  have "map transmitted ((sockets w)[ws w := socket_close (current w)]) = map transmitted (sockets w)"
    using lt by (simp add: map_update socket_close_def current_def list_update_same_conv)
  then have wc: "wire (close w) = wire w"
    by (simp add: close_def wire_def)
  have qc: "message_queue (close w) = message_queue w"
    by (simp add: close_def)
  have w2: "w2 = (close w)\<lparr>message_queue := message_queue w @ [JSON_stringify d]\<rparr>"
    unfolding assms(2) using qc by (simp add: send_buffers[OF no])
  have wf2: "wf w2" using wfc by (simp add: w2 wf_upd_queue)
  have no2: "readyState (current w2) \<noteq> 1" using no by (simp add: w2 current_def)
  have wire2: "wire w2 = wire w" using wc by (simp add: w2 wire_def)
  from run_quiet[OF wf2 no2 assms(3), of P]
  have q: "prefix (message_queue w @ [JSON_stringify d]) (message_queue w3)" "wire w3 = wire w"
    unfolding assms(4) using wire2 by (simp_all add: quiet_def w2)
  have "wf w3" unfolding assms(4) by (rule run_wf[OF wf2])
  from opened_facts[OF this assms(5,6), of P] q wire2 w2 show ?thesis by simp
qed

theorem sends_after_close_flush_on_reopen_witness:
  "wf (run no_frames [Open 0] (GameServer ()))
   \<and> (\<forall>k. Open k \<notin> set [Closed 0 :: unit event])
   \<and> 1 < length (sockets (run no_frames [Closed 0] closed_by_page))
   \<and> readyState (sockets (run no_frames [Closed 0] closed_by_page) ! 1) = 0
   \<and> message_queue closed_by_page = [JSON_stringify ready_msg]
   \<and> wire (run no_frames [Closed 0] closed_by_page) = []
   \<and> wire (step no_frames (Open 1) (run no_frames [Closed 0] closed_by_page))
       = [JSON_stringify ready_msg]"
proof -
  have h: "wf (run no_frames [Open 0] (GameServer ()))"
    "closed_by_page = state_of (send ready_msg (close (run no_frames [Open 0] (GameServer ()))))"
    "\<forall>k. Open k \<notin> set [Closed 0 :: unit event]"
    "run no_frames [Closed 0] closed_by_page = run no_frames [Closed 0] closed_by_page"
    "1 < length (sockets (run no_frames [Closed 0] closed_by_page))"
    "readyState (sockets (run no_frames [Closed 0] closed_by_page) ! 1) = 0"
    by (simp_all add: closed_by_page_def examples v1_eval send_def)
  have v: "message_queue (run no_frames [Open 0] (GameServer ())) = []"
    "wire (run no_frames [Open 0] (GameServer ())) = []"
    "message_queue (run no_frames [Closed 0] closed_by_page) = [JSON_stringify ready_msg]"
    by (simp_all add: closed_by_page_def examples v1_eval send_def)
  from sends_after_close_flush_on_reopen[OF h] h v show ?thesis by simp
qed

end
